theory Spec2Isabelle
  imports Main "HOL-Library.Word" "HOL-Library.Monad_Syntax"
begin

unbundle bit_operations_syntax

type_synonym byte = "8 word"

section \<open>Huffman builder: data model\<close>

text \<open>
  The Huffman program keeps its nodes and queue entries on the C heap and links them by
  pointers.  The model keeps the same shape: an address is a natural number, \<open>NULL\<close> is
  \<open>None\<close>, and the heap maps addresses to \<open>struct node\<close> and \<open>struct queue\<close> values.
  Dereferencing \<open>NULL\<close> or an address that holds no object is undefined in C; every
  function below returns \<open>None\<close> in that case.  \<open>malloc\<close> hands out the next unused
  address \<open>brk\<close>.  The globals \<open>head\<close>, \<open>reps\<close>, \<open>chars\<close>, \<open>uniq\<close> and \<open>end\<close> are
  fields of the state.
\<close>

type_synonym addr = nat

record Node =
  node_value :: int
  node_ch :: byte
  lson :: "addr option"
  rson :: "addr option"

record Queue =
  q_n :: "addr option"
  q_next :: "addr option"

record hstate =
  nodes :: "addr \<rightharpoonup> Node"
  cells :: "addr \<rightharpoonup> Queue"
  brk :: addr
  head :: "addr option"
  reps :: "int list"
  chars :: "byte list"
  uniq :: int
  end_idx :: int
  printed :: "(byte list \<times> byte \<times> int) list"

text \<open>
  The state of a freshly started process: an empty heap, \<open>int reps[256] = {}\<close>,
  \<open>char chars[256] = {EOF}\<close>, \<open>uniq = 0\<close>, \<open>end = 0\<close>, \<open>head\<close> a null pointer.
\<close>

definition init_hstate :: hstate where
  "init_hstate =
     \<lparr>nodes = Map.empty, cells = Map.empty, brk = 0, head = None,
      reps = replicate 256 0, chars = 255 # replicate 255 0, uniq = 0,
      end_idx = 0, printed = []\<rparr>"

section \<open>Huffman builder: the priority queue\<close>

definition createQueue :: "hstate \<Rightarrow> addr \<times> hstate" where
  "createQueue h =
     (brk h, h\<lparr>cells := (cells h)(brk h \<mapsto> \<lparr>q_n = None, q_next = None\<rparr>), brk := brk h + 1\<rparr>)"

text \<open>\<open>q->n->value\<close> for a queue entry at address \<open>q\<close>.\<close>

definition cell_value :: "hstate \<Rightarrow> addr \<Rightarrow> int option" where
  "cell_value h q = do {
     c \<leftarrow> cells h q;
     np \<leftarrow> q_n c;
     nd \<leftarrow> nodes h np;
     Some (node_value nd)
   }"

definition set_next :: "hstate \<Rightarrow> addr \<Rightarrow> addr option \<Rightarrow> hstate option" where
  "set_next h q nx = do {
     c \<leftarrow> cells h q;
     Some (h\<lparr>cells := (cells h)(q \<mapsto> c\<lparr>q_next := nx\<rparr>)\<rparr>)
   }"

text \<open>
  The scan of \<open>push\<close>: \<open>while(q->next != NULL){ if(n->value <= q->next->n->value) break;
  q = q->next; }\<close>.  It returns the entry \<open>q\<close> at which the loop stops.  On a cyclic list
  the loop need not stop, so the function is partial.
\<close>

partial_function (option) push_scan :: "hstate \<Rightarrow> int \<Rightarrow> addr \<Rightarrow> addr option" where
  "push_scan h v q =
     (case cells h q of
        None \<Rightarrow> None
      | Some c \<Rightarrow>
          (case q_next c of
             None \<Rightarrow> Some q
           | Some nx \<Rightarrow>
               (case cell_value h nx of
                  None \<Rightarrow> None
                | Some w \<Rightarrow> if v \<le> w then Some q else push_scan h v nx)))"

definition push :: "addr \<Rightarrow> hstate \<Rightarrow> hstate option" where
  "push n h0 =
     (let h = (if head h0 = None
               then (let (q, h') = createQueue h0 in h'\<lparr>head := Some q\<rparr>)
               else h0)
      in do {
        hp \<leftarrow> head h;
        hc \<leftarrow> cells h hp;
        if q_n hc = None then Some (h\<lparr>cells := (cells h)(hp \<mapsto> hc\<lparr>q_n := Some n\<rparr>)\<rparr>)
        else do {
          let (q_new, h1) = createQueue h;
          h2 \<leftarrow> Some (h1\<lparr>cells := (cells h1)(q_new \<mapsto> \<lparr>q_n = Some n, q_next = None\<rparr>)\<rparr>);
          nd \<leftarrow> nodes h2 n;
          q \<leftarrow> push_scan h2 (node_value nd) hp;
          qv \<leftarrow> cell_value h2 q;
          h3 \<leftarrow> (if q = hp \<and> node_value nd < qv
                 then do { h' \<leftarrow> set_next h2 q_new (Some q); Some (h'\<lparr>head := Some q_new\<rparr>) }
                 else Some h2);
          qc \<leftarrow> cells h3 q;
          h4 \<leftarrow> set_next h3 q_new (q_next qc);
          set_next h4 q (Some q_new)
        }
      })"

definition isEmpty :: "hstate \<Rightarrow> int" where
  "isEmpty h = (if head h = None then 1 else 0)"

definition isAlone :: "hstate \<Rightarrow> int option" where
  "isAlone h = do {
     hp \<leftarrow> head h;
     hc \<leftarrow> cells h hp;
     Some (if q_next hc = None then 1 else 0)
   }"

text \<open>\<open>pop\<close> returns the node pointer of the front entry and frees the entry unless it was
  the last one.\<close>

definition pop :: "hstate \<Rightarrow> (addr option \<times> hstate) option" where
  "pop h = do {
     hp \<leftarrow> head h;
     hc \<leftarrow> cells h hp;
     let h1 = h\<lparr>head := q_next hc\<rparr>;
     Some (q_n hc, if head h1 \<noteq> None then h1\<lparr>cells := (cells h1)(hp := None)\<rparr> else h1)
   }"

definition peek :: "hstate \<Rightarrow> addr option option" where
  "peek h = do {
     hp \<leftarrow> head h;
     hc \<leftarrow> cells h hp;
     Some (q_n hc)
   }"

text \<open>
  The queue as the program sees it: the node pointers met when following \<open>next\<close> from
  an entry until the null pointer (\<open>printQueue\<close> walks the list this way).  The walk
  takes at most \<open>k\<close> steps; the result is \<open>None\<close> when it meets a dangling pointer or
  has not reached the end by then.  An entry whose \<open>n\<close> is null contributes nothing.
\<close>

fun queue_from :: "nat \<Rightarrow> hstate \<Rightarrow> addr option \<Rightarrow> addr list option" where
  "queue_from k h None = Some []"
| "queue_from 0 h (Some q) = None"
| "queue_from (Suc k) h (Some q) = do {
     c \<leftarrow> cells h q;
     xs \<leftarrow> queue_from k h (q_next c);
     Some ((case q_n c of None \<Rightarrow> [] | Some np \<Rightarrow> [np]) @ xs)
   }"

definition queue_values :: "nat \<Rightarrow> hstate \<Rightarrow> int list option" where
  "queue_values k h = do {
     ps \<leftarrow> queue_from k h (head h);
     those (map (\<lambda>np. map_option node_value (nodes h np)) ps)
   }"

section \<open>Huffman builder: frequency pass\<close>

text \<open>
  \<open>contains\<close> returns the first index \<open>i < size\<close> with \<open>arr[i] == ch\<close>, or \<open>-1\<close>.
  A read outside the array is undefined in C and is \<open>None\<close> here.
\<close>

function contains_loop :: "byte \<Rightarrow> byte list \<Rightarrow> int \<Rightarrow> int \<Rightarrow> int option" where
  "contains_loop ch arr sz i =
     (if i < sz
      then (if \<not> (0 \<le> i \<and> i < int (length arr)) then None
            else if ch = arr ! nat i then Some i
            else contains_loop ch arr sz (i + 1))
      else Some (- 1))"
  by pat_completeness auto
termination
  by (relation "measure (\<lambda>(ch, arr, sz, i). nat (sz - i))") auto

declare contains_loop.simps [simp del]

definition contains_char :: "byte \<Rightarrow> byte list \<Rightarrow> int \<Rightarrow> int option" where
  "contains_char ch arr sz = contains_loop ch arr sz 0"

text \<open>The body of the loop of \<open>count\<close> for the input byte \<open>c = arr[i]\<close>.\<close>

definition count_step :: "byte \<Rightarrow> hstate \<Rightarrow> hstate option" where
  "count_step c h = do {
     pos \<leftarrow> contains_char c (chars h) (uniq h);
     if pos > 0
     then (if pos < int (length (reps h))
           then Some (h\<lparr>reps := (reps h)[nat pos := reps h ! nat pos + 1]\<rparr>)
           else None)
     else (if 0 \<le> uniq h \<and> uniq h < int (length (chars h)) \<and> uniq h < int (length (reps h))
           then Some (h\<lparr>chars := (chars h)[nat (uniq h) := c],
                       reps := (reps h)[nat (uniq h) := reps h ! nat (uniq h) + 1],
                       uniq := uniq h + 1\<rparr>)
           else None)
   }"

function count_loop :: "byte list \<Rightarrow> int \<Rightarrow> int \<Rightarrow> hstate \<Rightarrow> hstate option" where
  "count_loop arr sz i h =
     (if i < sz
      then (if \<not> (0 \<le> i \<and> i < int (length arr)) then None
            else (case count_step (arr ! nat i) h of
                    None \<Rightarrow> None
                  | Some h' \<Rightarrow> count_loop arr sz (i + 1) h'))
      else Some h)"
  by pat_completeness auto
termination
  by (relation "measure (\<lambda>(arr, sz, i, h). nat (sz - i))") auto

declare count_loop.simps [simp del]

definition count :: "byte list \<Rightarrow> int \<Rightarrow> hstate \<Rightarrow> hstate option" where
  "count arr sz h = count_loop arr sz 0 h"

section \<open>Huffman builder: tree construction and codeword emission\<close>

text \<open>\<open>createNode\<close>: the fields \<open>value\<close> and \<open>ch\<close> of the fresh node are indeterminate in
  C until the caller assigns them; the model starts them at 0.\<close>

definition createNode :: "hstate \<Rightarrow> addr \<times> hstate" where
  "createNode h =
     (brk h, h\<lparr>nodes := (nodes h)(brk h \<mapsto> \<lparr>node_value = 0, node_ch = 0, lson = None, rson = None\<rparr>),
               brk := brk h + 1\<rparr>)"

text \<open>The first loop of \<open>huffmanTree\<close>: one leaf per entry \<open>i < uniq\<close> of the tables.
  The second component is the local \<open>n\<close> (\<open>None\<close> while it has not been assigned).\<close>

function leaves_loop :: "int \<Rightarrow> addr option \<Rightarrow> hstate \<Rightarrow> (addr option \<times> hstate) option" where
  "leaves_loop i n h =
     (if i < uniq h
      then (if \<not> (0 \<le> i \<and> i < int (length (reps h)) \<and> i < int (length (chars h))) then None
            else (let (p, h1) = createNode h;
                      h2 = h1\<lparr>nodes := (nodes h1)(p \<mapsto>
                              \<lparr>node_value = reps h ! nat i, node_ch = chars h ! nat i,
                               lson = None, rson = None\<rparr>)\<rparr>
                  in case push p h2 of
                       None \<Rightarrow> None
                     | Some h3 \<Rightarrow> if uniq h3 = uniq h then leaves_loop (i + 1) (Some p) h3 else None))
      else Some (n, h))"
  by pat_completeness auto
termination
  by (relation "measure (\<lambda>(i, n, h). nat (uniq h - i))") auto

declare leaves_loop.simps [simp del]

text \<open>The merge loop: \<open>while(!isAlone()) { n1 = pop(); ... push(n); }\<close>.\<close>

partial_function (option) merge_loop :: "addr option \<Rightarrow> hstate \<Rightarrow> (addr option \<times> hstate) option" where
  "merge_loop n h =
     (case isAlone h of
        None \<Rightarrow> None
      | Some a \<Rightarrow>
          if a \<noteq> 0 then Some (n, h)
          else (case pop h of
                  None \<Rightarrow> None
                | Some (n1, h1) \<Rightarrow>
                    (case n1 of
                       None \<Rightarrow> Some (n, h1)
                     | Some p1 \<Rightarrow>
                         (case pop h1 of
                            None \<Rightarrow> None
                          | Some (n2, h2) \<Rightarrow>
                              (case n2 of
                                 None \<Rightarrow> Some (n, h2)
                               | Some p2 \<Rightarrow>
                                   (case (nodes h2 p1, nodes h2 p2) of
                                      (Some d1, Some d2) \<Rightarrow>
                                        (let (p, h3) = createNode h2;
                                             h4 = h3\<lparr>nodes := (nodes h3)(p \<mapsto>
                                                     \<lparr>node_value = node_value d1 + node_value d2,
                                                      node_ch = 0, lson = Some p1, rson = Some p2\<rparr>)\<rparr>
                                         in case push p h4 of
                                              None \<Rightarrow> None
                                            | Some h5 \<Rightarrow> merge_loop (Some p) h5)
                                    | _ \<Rightarrow> None))))))"

text \<open>
  \<open>printTree\<close> walks the tree depth first.  \<open>str\<close> is the caller's buffer and \<open>end\<close> the
  global write position; at a leaf the program prints the buffer up to its first NUL, the
  symbol and \<open>end\<close>.  Each printed line is recorded as (codeword, symbol, bits).
\<close>

definition str_put :: "byte list \<Rightarrow> int \<Rightarrow> byte \<Rightarrow> byte list option" where
  "str_put str i c = (if 0 \<le> i \<and> i < int (length str) then Some (str[nat i := c]) else None)"

partial_function (option) printTree :: "addr \<Rightarrow> byte list \<Rightarrow> hstate \<Rightarrow> (byte list \<times> hstate) option" where
  "printTree n str h = do {
     nd \<leftarrow> nodes h n;
     (str1, h1) \<leftarrow>
       (case lson nd of
          None \<Rightarrow> Some (str, h)
        | Some l \<Rightarrow> do {
            s \<leftarrow> str_put str (end_idx h) 48;
            printTree l s (h\<lparr>end_idx := end_idx h + 1\<rparr>)
          });
     (str2, h2) \<leftarrow>
       (case rson nd of
          None \<Rightarrow> Some (str1, h1)
        | Some r \<Rightarrow> do {
            s \<leftarrow> str_put str1 (end_idx h1) 49;
            printTree r s (h1\<lparr>end_idx := end_idx h1 + 1\<rparr>)
          });
     (str3, h3) \<leftarrow>
       (if lson nd = None \<and> rson nd = None
        then do {
          s \<leftarrow> str_put str2 (end_idx h2) 0;
          Some (s, h2\<lparr>printed := printed h2 @
                        [(takeWhile (\<lambda>b. b \<noteq> 0) s, node_ch nd, end_idx h2)]\<rparr>)
        }
        else Some (str2, h2));
     Some (str3, h3\<lparr>end_idx := end_idx h3 - 1\<rparr>)
   }"

text \<open>\<open>huffmanTree\<close>: returns the root pointer and the final state (whose \<open>printed\<close>
  field holds the code table written to the terminal).  When no leaf was created the
  local \<open>n\<close> is never assigned and its use is undefined.\<close>

definition huffmanTree :: "byte list \<Rightarrow> int \<Rightarrow> hstate \<Rightarrow> (addr \<times> hstate) option" where
  "huffmanTree argv sz h0 = do {
     h1 \<leftarrow> count argv sz h0;
     let (q, h2) = createQueue h1;
     let h3 = h2\<lparr>head := Some q\<rparr>;
     (n, h4) \<leftarrow> leaves_loop 0 None h3;
     (n', h5) \<leftarrow> merge_loop n h4;
     root \<leftarrow> n';
     (str, h6) \<leftarrow> printTree root (255 # replicate 1023 0) h5;
     Some (root, h6)
   }"


section \<open>Huffman builder: what the code does\<close>

lemma replicate_update_unfold:
  "0 < n \<Longrightarrow> (replicate n x)[i := y] =
     (case i of 0 \<Rightarrow> y # replicate (n - 1) x | Suc j \<Rightarrow> x # (replicate (n - 1) x)[j := y])"
  by (cases n) (auto split: nat.splits)

text \<open>
  A heap with a one-entry queue: the entry at address 0 holds the node at address 1, whose
  value is 5.  The node at address 2, with value 3, is not in the queue yet.
\<close>

definition queue_5 :: hstate where
  "queue_5 = init_hstate\<lparr>
      nodes := [1 \<mapsto> \<lparr>node_value = 5, node_ch = 65, lson = None, rson = None\<rparr>,
                2 \<mapsto> \<lparr>node_value = 3, node_ch = 66, lson = None, rson = None\<rparr>],
      cells := [0 \<mapsto> \<lparr>q_n = Some 1, q_next = None\<rparr>],
      brk := 3, head := Some 0\<rparr>"

lemmas huff_defs = replicate_update_unfold queue_5_def init_hstate_def push_def createQueue_def
  createNode_def cell_value_def set_next_def queue_values_def count_def count_step_def
  contains_char_def huffmanTree_def isAlone_def pop_def str_put_def
  contains_loop.simps count_loop.simps leaves_loop.simps

text \<open>
  Claim C3 (the queue stays ordered under \<open>push\<close>, keeps every node it held and gains the
  new one).  The code does not keep the nodes: when the new value is smaller than the front
  value, \<open>push\<close> links the new entry in front and then, with no \<open>else\<close> or \<open>return\<close>,
  runs the general splice \<open>q_next->next = q->next; q->next = q_next\<close> as well, which
  points the new entry past the old front.  Pushing the node of value 3 onto the queue
  holding the node of value 5 leaves a queue that holds the node of value 3 alone.
\<close>

theorem push_smaller_value_drops_front:
  "queue_from 2 queue_5 (head queue_5) = Some [1] \<and>
   queue_values 2 queue_5 = Some [5] \<and>
   map_option (\<lambda>h. queue_from 2 h (head h)) (push 2 queue_5) = Some (Some [2]) \<and>
   map_option (queue_values 2) (push 2 queue_5) = Some (Some [3])"
  by (simp add: huff_defs push_scan.simps eval_nat_numeral)

text \<open>
  Claim C4 (the frequency pass yields one leaf per distinct symbol, valued with its number
  of occurrences).  \<open>contains\<close> answers \<open>-1\<close> for "absent" but \<open>count\<close> tests
  \<open>pos > 0\<close>, so a symbol found at index 0 is entered again.  On the input \<open>aa\<close> the
  tables end with two entries for \<open>a\<close>, each counted once, and the code table printed by
  \<open>huffmanTree\<close> has two lines for \<open>a\<close>.
\<close>

theorem count_duplicates_first_symbol:
  "map_option (\<lambda>h. (uniq h, chars h ! 0, reps h ! 0, chars h ! 1, reps h ! 1))
     (count [97, 97] 2 init_hstate) = Some (2, 97, 1, 97, 1) \<and>
   map_option (\<lambda>(r, h). printed h) (huffmanTree [97, 97] 2 init_hstate) =
     Some [([48], 97, 1), ([49], 97, 1)]"
  by (simp add: huff_defs push_scan.simps merge_loop.simps printTree.simps)

text \<open>
  Claim C8 (a single distinct symbol gets a codeword of length at least 1), as stated:
  it fails on the input consisting of the one byte \<open>A\<close>.  The only leaf is the root,
  \<open>printTree\<close> descends no edge and prints the empty codeword with 0 bits.
\<close>

theorem single_byte_input_empty_codeword:
  "map_option (\<lambda>(r, h). printed h) (huffmanTree [65] 1 init_hstate) = Some [([], 65, 0)]"
  by (simp add: huff_defs merge_loop.simps printTree.simps)

text \<open>
  Claim C8, amended: for an input that is one occurrence of one symbol \<open>c\<close> the root of
  the tree is a leaf, and the builder prints exactly one table line, giving \<open>c\<close> the empty
  codeword of length 0.
\<close>

theorem root_leaf_gets_empty_codeword:
  "map_option (\<lambda>(r, h). printed h) (huffmanTree [c] 1 init_hstate) = Some [([], c, 0)]"
  by (simp add: huff_defs merge_loop.simps printTree.simps)

section \<open>Bit stream layer: files and handles\<close>

text \<open>
  The C library is not part of the program.  A \<open>FILE\<close> is modelled by the bytes still to
  be read, the bytes written so far, and whether the device accepts a write: \<open>fgetc\<close>
  returns \<open>EOF\<close> when nothing is left, \<open>fputc\<close> returns \<open>EOF\<close> when the write fails
  and otherwise the byte written (its argument converted to \<open>unsigned char\<close>).
  C \<open>int\<close> results are integers; \<open>unsigned char\<close> is \<open>8 word\<close>, \<open>unsigned int\<close> is
  \<open>32 word\<close> and \<open>size_t\<close> is \<open>64 word\<close> (the build is \<open>-m64\<close>).
\<close>

definition EOF :: int where
  "EOF = - 1"

definition ENOTSUP :: int where
  "ENOTSUP = 95"

record FILE =
  unread :: "byte list"
  written :: "byte list"
  wok :: bool

definition fgetc :: "FILE \<Rightarrow> int \<times> FILE" where
  "fgetc f = (case unread f of [] \<Rightarrow> (EOF, f) | b # bs \<Rightarrow> (uint b, f\<lparr>unread := bs\<rparr>))"

definition fputc :: "int \<Rightarrow> FILE \<Rightarrow> int \<times> FILE" where
  "fputc c f =
     (if wok f then (uint (word_of_int c :: byte), f\<lparr>written := written f @ [word_of_int c]\<rparr>)
      else (EOF, f))"

definition fclose :: "FILE \<Rightarrow> int \<times> FILE" where
  "fclose f = (0, f)"

lemma fgetc_cases:
  "fgetc f = (c, f') \<Longrightarrow>
     (unread f = [] \<and> c = EOF \<and> f' = f) \<or>
     (\<exists>b bs. unread f = b # bs \<and> c = uint b \<and> f' = f\<lparr>unread := bs\<rparr>)"
  by (auto simp: fgetc_def split: list.splits)

lemma uint_byte_not_EOF [simp]: "uint (b :: byte) \<noteq> EOF"
proof
  assume "uint b = EOF"
  then have "uint b < 0" by (simp add: EOF_def)
  then show False by simp
qed

lemma uint_byte_not_minus_1 [simp]: "uint (b :: byte) \<noteq> - 1"
  using uint_byte_not_EOF [of b] by (simp add: EOF_def)

datatype BF_MODES = BF_READ | BF_WRITE | BF_APPEND

datatype endian_t = BF_UNKNOWN_ENDIAN | BF_LITTLE_ENDIAN | BF_BIG_ENDIAN

text \<open>The values a \<open>num_func_t\<close> function pointer takes in the program.\<close>

datatype num_func_t = PutBitsLE | PutBitsBE | GetBitsLE | GetBitsBE | NotSupported

record bit_file_t =
  fp :: FILE
  bitBuffer :: byte
  bitCount :: byte
  PutBitsNumFunc :: "num_func_t option"
  GetBitsNumFunc :: "num_func_t option"
  mode :: BF_MODES

text \<open>
  The byte order of the machine decides how an integer object looks through a byte pointer.
  \<open>MixedEndian\<close> stands for a machine that is neither little nor big endian (16-bit units
  stored high unit first, low byte first inside a unit).
\<close>

datatype byte_order = LittleEndian | BigEndian | MixedEndian

definition le_bytes :: "nat \<Rightarrow> nat \<Rightarrow> byte list" where
  "le_bytes n v = map (\<lambda>i. word_of_nat (v div 256 ^ i)) [0..<n]"

fun swap_pairs :: "'a list \<Rightarrow> 'a list" where
  "swap_pairs (x # y # zs) = y # x # swap_pairs zs"
| "swap_pairs zs = zs"

definition obj_bytes :: "byte_order \<Rightarrow> nat \<Rightarrow> nat \<Rightarrow> byte list" where
  "obj_bytes bo n v =
     (case bo of
        LittleEndian \<Rightarrow> le_bytes n v
      | BigEndian \<Rightarrow> rev (le_bytes n v)
      | MixedEndian \<Rightarrow> swap_pairs (rev (le_bytes n v)))"

definition le_value :: "byte list \<Rightarrow> nat" where
  "le_value bs = foldr (\<lambda>b acc. unat b + 256 * acc) bs 0"

definition obj_value :: "byte_order \<Rightarrow> byte list \<Rightarrow> nat" where
  "obj_value bo bs =
     (case bo of
        LittleEndian \<Rightarrow> le_value bs
      | BigEndian \<Rightarrow> le_value (rev bs)
      | MixedEndian \<Rightarrow> le_value (rev (swap_pairs bs)))"

text \<open>\<open>DetermineEndianess\<close> looks at the bytes of an \<open>unsigned long\<close> holding 1.\<close>

definition DetermineEndianess :: "byte_order \<Rightarrow> endian_t" where
  "DetermineEndianess bo =
     (let bytes = obj_bytes bo 8 1
      in if bytes ! 0 = 1 then BF_LITTLE_ENDIAN
         else if bytes ! (8 - 1) = 1 then BF_BIG_ENDIAN
         else BF_UNKNOWN_ENDIAN)"

text \<open>\<open>MakeBitFile\<close>; the allocation of the handle is taken to succeed.\<close>

definition MakeBitFile :: "byte_order \<Rightarrow> FILE option \<Rightarrow> BF_MODES \<Rightarrow> bit_file_t option" where
  "MakeBitFile bo stream m =
     (case stream of
        None \<Rightarrow> None
      | Some f \<Rightarrow>
          (let bf = \<lparr>fp = f, bitBuffer = 0, bitCount = 0,
                     PutBitsNumFunc = None, GetBitsNumFunc = None, mode = m\<rparr>
           in Some (case DetermineEndianess bo of
                      BF_LITTLE_ENDIAN \<Rightarrow>
                        bf\<lparr>PutBitsNumFunc := Some PutBitsLE, GetBitsNumFunc := Some GetBitsLE\<rparr>
                    | BF_BIG_ENDIAN \<Rightarrow>
                        bf\<lparr>PutBitsNumFunc := Some PutBitsBE, GetBitsNumFunc := Some GetBitsBE\<rparr>
                    | BF_UNKNOWN_ENDIAN \<Rightarrow>
                        bf\<lparr>PutBitsNumFunc := Some NotSupported,
                           GetBitsNumFunc := Some NotSupported\<rparr>)))"

text \<open>
  Shifts of the bit buffer: \<open>bitBuffer << (8 - bitCount)\<close> is computed in \<open>int\<close> and
  stored back into an \<open>unsigned char\<close>, which is \<open>push_bit\<close> on \<open>8 word\<close>.  The handles
  the program builds keep \<open>bitCount\<close> below 8 between calls (\<open>bf_inv\<close> below); for a larger
  count C leaves the shift undefined.
\<close>

definition flush_residual :: "bit_file_t \<Rightarrow> bit_file_t" where
  "flush_residual s =
     (if mode s = BF_WRITE \<or> mode s = BF_APPEND
      then (if bitCount s \<noteq> 0
            then (let b = push_bit (8 - unat (bitCount s)) (bitBuffer s);
                      (r, f) = fputc (uint b) (fp s)
                  in s\<lparr>bitBuffer := b, fp := f\<rparr>)
            else s)
      else s)"

definition BitFileClose :: "bit_file_t option \<Rightarrow> int \<times> FILE option" where
  "BitFileClose stream =
     (case stream of
        None \<Rightarrow> (EOF, None)
      | Some s \<Rightarrow> (let (returnValue, f) = fclose (fp (flush_residual s)) in (returnValue, Some f)))"

definition BitFileToFILE :: "bit_file_t option \<Rightarrow> FILE option" where
  "BitFileToFILE stream =
     (case stream of
        None \<Rightarrow> None
      | Some s \<Rightarrow> Some (fp (flush_residual s)))"

definition BitFileGetChar :: "bit_file_t option \<Rightarrow> int \<times> bit_file_t option" where
  "BitFileGetChar stream =
     (case stream of
        None \<Rightarrow> (EOF, None)
      | Some s0 \<Rightarrow>
          (let (returnValue, f) = fgetc (fp s0);
               s = s0\<lparr>fp := f\<rparr>
           in if bitCount s = 0 then (returnValue, Some s)
              else if returnValue \<noteq> EOF
              then (let tmp = drop_bit (unat (bitCount s)) (word_of_int returnValue :: byte);
                        tmp = tmp OR push_bit (8 - unat (bitCount s)) (bitBuffer s)
                    in (uint tmp, Some (s\<lparr>bitBuffer := word_of_int returnValue\<rparr>)))
              else (returnValue, Some s)))"

definition BitFilePutChar :: "int \<Rightarrow> bit_file_t option \<Rightarrow> int \<times> bit_file_t option" where
  "BitFilePutChar c stream =
     (case stream of
        None \<Rightarrow> (EOF, None)
      | Some s \<Rightarrow>
          if bitCount s = 0
          then (let (r, f) = fputc c (fp s) in (r, Some (s\<lparr>fp := f\<rparr>)))
          else (let tmp = drop_bit (unat (bitCount s)) (word_of_int c :: byte);
                    tmp = tmp OR push_bit (8 - unat (bitCount s)) (bitBuffer s);
                    (r, f) = fputc (uint tmp) (fp s)
                in if r \<noteq> EOF then (uint tmp, Some (s\<lparr>fp := f, bitBuffer := word_of_int c\<rparr>))
                   else (EOF, Some (s\<lparr>fp := f\<rparr>))))"

text \<open>The end of \<open>BitFileGetBit\<close>: the bit to return is the most significant unread
  bit of the buffer.\<close>

definition get_bit_msb :: "bit_file_t \<Rightarrow> int \<times> bit_file_t option" where
  "get_bit_msb s =
     (let s' = s\<lparr>bitCount := bitCount s - 1\<rparr>;
          returnValue = drop_bit (unat (bitCount s')) (uint (bitBuffer s'))
      in (returnValue AND 1, Some s'))"

definition BitFileGetBit :: "bit_file_t option \<Rightarrow> int \<times> bit_file_t option" where
  "BitFileGetBit stream =
     (case stream of
        None \<Rightarrow> (EOF, None)
      | Some s \<Rightarrow>
          if bitCount s = 0
          then (let (returnValue, f) = fgetc (fp s)
                in if returnValue = EOF then (EOF, Some (s\<lparr>fp := f\<rparr>))
                   else get_bit_msb (s\<lparr>fp := f, bitCount := 8, bitBuffer := word_of_int returnValue\<rparr>))
          else get_bit_msb s)"

definition BitFilePutBit :: "int \<Rightarrow> bit_file_t option \<Rightarrow> int \<times> bit_file_t option" where
  "BitFilePutBit c stream =
     (case stream of
        None \<Rightarrow> (EOF, None)
      | Some s \<Rightarrow>
          (let s1 = s\<lparr>bitCount := bitCount s + 1, bitBuffer := push_bit 1 (bitBuffer s)\<rparr>;
               s2 = (if c \<noteq> 0 then s1\<lparr>bitBuffer := bitBuffer s1 OR 1\<rparr> else s1)
           in if bitCount s2 = 8
              then (let (r, f) = fputc (uint (bitBuffer s2)) (fp s2)
                    in (if r = EOF then EOF else c, Some (s2\<lparr>fp := f, bitCount := 0, bitBuffer := 0\<rparr>)))
              else (c, Some s2)))"


section \<open>Bit stream layer: numeric transfer\<close>

text \<open>
  \<open>bits\<close> points at an object of bytes, modelled as a list.  An access outside that
  object is undefined in C and gives \<open>None\<close>.  The four endian-specific functions share
  two loops each: whole bytes through \<open>BitFilePutChar\<close>/\<open>BitFileGetChar\<close> with
  \<open>offset\<close> moving by \<open>step\<close> (\<open>+1\<close> little endian, \<open>-1\<close> big endian), then single
  bits.  A loop result \<open>Some e\<close> in the first component is the value of an early
  \<open>return\<close>.
\<close>

definition byte_at :: "byte list \<Rightarrow> int \<Rightarrow> byte option" where
  "byte_at bs i = (if 0 \<le> i \<and> i < int (length bs) then Some (bs ! nat i) else None)"

definition byte_set :: "byte list \<Rightarrow> int \<Rightarrow> byte \<Rightarrow> byte list option" where
  "byte_set bs i b = (if 0 \<le> i \<and> i < int (length bs) then Some (bs[nat i := b]) else None)"

function put_whole ::
  "int \<Rightarrow> bit_file_t option \<Rightarrow> byte list \<Rightarrow> int \<Rightarrow> int
     \<Rightarrow> (int option \<times> bit_file_t option \<times> int \<times> int) option" where
  "put_whole step stream bytes offset remaining =
     (if remaining \<ge> 8
      then (case byte_at bytes offset of
              None \<Rightarrow> None
            | Some b \<Rightarrow>
                (case BitFilePutChar (uint b) stream of
                   (returnValue, stream') \<Rightarrow>
                     if returnValue = EOF then Some (Some EOF, stream', offset, remaining)
                     else put_whole step stream' bytes (offset + step) (remaining - 8)))
      else Some (None, stream, offset, remaining))"
  by pat_completeness auto
termination
  by (relation "measure (\<lambda>(step, stream, bytes, offset, remaining). nat remaining)") auto

declare put_whole.simps [simp del]

function put_tail :: "bit_file_t option \<Rightarrow> byte \<Rightarrow> int \<Rightarrow> int option \<times> bit_file_t option" where
  "put_tail stream tmp remaining =
     (if remaining > 0
      then (case BitFilePutBit (uint (tmp AND 0x80)) stream of
              (returnValue, stream') \<Rightarrow>
                if returnValue = EOF then (Some EOF, stream')
                else put_tail stream' (push_bit 1 tmp) (remaining - 1))
      else (None, stream))"
  by pat_completeness auto
termination
  by (relation "measure (\<lambda>(stream, tmp, remaining). nat remaining)") auto

declare put_tail.simps [simp del]

text \<open>The part common to \<open>BitFilePutBitsLE\<close> and \<open>BitFilePutBitsBE\<close> after \<open>offset\<close>
  has been set.\<close>

definition put_bits_from ::
  "int \<Rightarrow> bit_file_t option \<Rightarrow> byte list \<Rightarrow> 32 word \<Rightarrow> int
     \<Rightarrow> (int \<times> bit_file_t option \<times> byte list) option" where
  "put_bits_from step stream bits cnt offset0 =
     (case put_whole step stream bits offset0 (sint cnt) of
        None \<Rightarrow> None
      | Some (Some e, stream1, offset, remaining) \<Rightarrow> Some (e, stream1, bits)
      | Some (None, stream1, offset, remaining) \<Rightarrow>
          if remaining \<noteq> 0
          then (case byte_at bits offset of
                  None \<Rightarrow> None
                | Some b \<Rightarrow>
                    (case put_tail stream1 (push_bit (nat (8 - remaining)) b) remaining of
                       (Some e, stream2) \<Rightarrow> Some (e, stream2, bits)
                     | (None, stream2) \<Rightarrow> Some (sint cnt, stream2, bits)))
          else Some (sint cnt, stream1, bits))"

definition BitFilePutBitsLE ::
  "bit_file_t option \<Rightarrow> byte list \<Rightarrow> 32 word \<Rightarrow> 64 word
     \<Rightarrow> (int \<times> bit_file_t option \<times> byte list) option" where
  "BitFilePutBitsLE stream bits cnt sz = put_bits_from 1 stream bits cnt 0"

definition BitFilePutBitsBE ::
  "bit_file_t option \<Rightarrow> byte list \<Rightarrow> 32 word \<Rightarrow> 64 word
     \<Rightarrow> (int \<times> bit_file_t option \<times> byte list) option" where
  "BitFilePutBitsBE stream bits cnt sz =
     (if ucast cnt > sz * 8 then Some (EOF, stream, bits)
      else put_bits_from (- 1) stream bits cnt (sint (ucast (sz - 1) :: 32 word)))"

function get_whole ::
  "int \<Rightarrow> bit_file_t option \<Rightarrow> byte list \<Rightarrow> int \<Rightarrow> int
     \<Rightarrow> (int option \<times> bit_file_t option \<times> byte list \<times> int \<times> int) option" where
  "get_whole step stream bytes offset remaining =
     (if remaining \<ge> 8
      then (case BitFileGetChar stream of
              (returnValue, stream') \<Rightarrow>
                if returnValue = EOF then Some (Some EOF, stream', bytes, offset, remaining)
                else (case byte_set bytes offset (word_of_int returnValue) of
                        None \<Rightarrow> None
                      | Some bytes' \<Rightarrow>
                          get_whole step stream' bytes' (offset + step) (remaining - 8)))
      else Some (None, stream, bytes, offset, remaining))"
  by pat_completeness auto
termination
  by (relation "measure (\<lambda>(step, stream, bytes, offset, remaining). nat remaining)") auto

declare get_whole.simps [simp del]

function get_tail ::
  "bit_file_t option \<Rightarrow> byte list \<Rightarrow> int \<Rightarrow> int
     \<Rightarrow> (int option \<times> bit_file_t option \<times> byte list) option" where
  "get_tail stream bytes offset remaining =
     (if remaining > 0
      then (case BitFileGetBit stream of
              (returnValue, stream') \<Rightarrow>
                if returnValue = EOF then Some (Some EOF, stream', bytes)
                else (case byte_at bytes offset of
                        None \<Rightarrow> None
                      | Some b \<Rightarrow>
                          get_tail stream'
                            (bytes[nat offset := push_bit 1 b OR word_of_int (returnValue AND 1)])
                            offset (remaining - 1)))
      else Some (None, stream, bytes))"
  by pat_completeness auto
termination
  by (relation "measure (\<lambda>(stream, bytes, offset, remaining). nat remaining)") auto

declare get_tail.simps [simp del]

definition get_bits_from ::
  "int \<Rightarrow> bit_file_t option \<Rightarrow> byte list \<Rightarrow> 32 word \<Rightarrow> int
     \<Rightarrow> (int \<times> bit_file_t option \<times> byte list) option" where
  "get_bits_from step stream bits cnt offset0 =
     (case get_whole step stream bits offset0 (sint cnt) of
        None \<Rightarrow> None
      | Some (Some e, stream1, bytes1, offset, remaining) \<Rightarrow> Some (e, stream1, bytes1)
      | Some (None, stream1, bytes1, offset, remaining) \<Rightarrow>
          if remaining \<noteq> 0
          then (case get_tail stream1 bytes1 offset remaining of
                  None \<Rightarrow> None
                | Some (Some e, stream2, bytes2) \<Rightarrow> Some (e, stream2, bytes2)
                | Some (None, stream2, bytes2) \<Rightarrow> Some (sint cnt, stream2, bytes2))
          else Some (sint cnt, stream1, bytes1))"

definition BitFileGetBitsLE ::
  "bit_file_t option \<Rightarrow> byte list \<Rightarrow> 32 word \<Rightarrow> 64 word
     \<Rightarrow> (int \<times> bit_file_t option \<times> byte list) option" where
  "BitFileGetBitsLE stream bits cnt sz = get_bits_from 1 stream bits cnt 0"

definition BitFileGetBitsBE ::
  "bit_file_t option \<Rightarrow> byte list \<Rightarrow> 32 word \<Rightarrow> 64 word
     \<Rightarrow> (int \<times> bit_file_t option \<times> byte list) option" where
  "BitFileGetBitsBE stream bits cnt sz =
     (if ucast cnt > sz * 8 then Some (EOF, stream, bits)
      else get_bits_from (- 1) stream bits cnt (sint (ucast (sz - 1) :: 32 word)))"

definition BitFileNotSupported ::
  "bit_file_t option \<Rightarrow> byte list \<Rightarrow> 32 word \<Rightarrow> 64 word
     \<Rightarrow> (int \<times> bit_file_t option \<times> byte list) option" where
  "BitFileNotSupported stream bits cnt sz = Some (- ENOTSUP, stream, bits)"

text \<open>A call through a \<open>num_func_t\<close> pointer.\<close>

definition call_num_func ::
  "num_func_t \<Rightarrow> bit_file_t option \<Rightarrow> byte list \<Rightarrow> 32 word \<Rightarrow> 64 word
     \<Rightarrow> (int \<times> bit_file_t option \<times> byte list) option" where
  "call_num_func f =
     (case f of
        PutBitsLE \<Rightarrow> BitFilePutBitsLE
      | PutBitsBE \<Rightarrow> BitFilePutBitsBE
      | GetBitsLE \<Rightarrow> BitFileGetBitsLE
      | GetBitsBE \<Rightarrow> BitFileGetBitsBE
      | NotSupported \<Rightarrow> BitFileNotSupported)"

definition BitFileGetBitsNum ::
  "bit_file_t option \<Rightarrow> byte list option \<Rightarrow> 32 word \<Rightarrow> 64 word
     \<Rightarrow> (int \<times> bit_file_t option \<times> byte list option) option" where
  "BitFileGetBitsNum stream bits cnt sz =
     (case (stream, bits) of
        (Some s, Some b) \<Rightarrow>
          (case GetBitsNumFunc s of
             None \<Rightarrow> Some (- ENOTSUP, stream, bits)
           | Some f \<Rightarrow>
               map_option (\<lambda>(r, stream', b'). (r, stream', Some b'))
                 (call_num_func f stream b cnt sz))
      | _ \<Rightarrow> Some (EOF, stream, bits))"

definition BitFilePutBitsNum ::
  "bit_file_t option \<Rightarrow> byte list option \<Rightarrow> 32 word \<Rightarrow> 64 word
     \<Rightarrow> (int \<times> bit_file_t option \<times> byte list option) option" where
  "BitFilePutBitsNum stream bits cnt sz =
     (case (stream, bits) of
        (Some s, Some b) \<Rightarrow>
          (case PutBitsNumFunc s of
             None \<Rightarrow> Some (ENOTSUP, stream, bits)
           | Some f \<Rightarrow>
               map_option (\<lambda>(r, stream', b'). (r, stream', Some b'))
                 (call_num_func f stream b cnt sz))
      | _ \<Rightarrow> Some (EOF, stream, bits))"


section \<open>Bit stream layer: the bits on the wire\<close>

text \<open>
  Bits travel most significant first.  \<open>low_bits k b\<close> are the \<open>k\<close> low-order bits of
  \<open>b\<close> in that order, \<open>byte_bits b\<close> all eight.
\<close>

definition low_bits :: "nat \<Rightarrow> byte \<Rightarrow> bool list" where
  "low_bits k b = map (bit b) (rev [0..<k])"

definition byte_bits :: "byte \<Rightarrow> bool list" where
  "byte_bits b = low_bits 8 b"

lemma low_bits_0 [simp]: "low_bits 0 b = []"
  by (simp add: low_bits_def)

lemma low_bits_Suc [simp]: "low_bits (Suc k) b = bit b k # low_bits k b"
  by (simp add: low_bits_def)

lemma low_bits_numeral [simp]:
  "low_bits (numeral n) b = bit b (pred_numeral n) # low_bits (pred_numeral n) b"
  by (simp add: numeral_eq_Suc)

lemma low_bits_1 [simp]: "low_bits 1 b = [bit b 0]"
  by (simp add: low_bits_def)

lemma length_low_bits [simp]: "length (low_bits k b) = k"
  by (simp add: low_bits_def)

lemma length_byte_bits [simp]: "length (byte_bits b) = 8"
  by (simp add: byte_bits_def del: low_bits_numeral)

lemma below_8_cases:
  fixes k :: nat
  assumes "k < 8"
  obtains "k = 0" | "k = 1" | "k = 2" | "k = 3" | "k = 4" | "k = 5" | "k = 6" | "k = 7"
  using assms by linarith

lemma bit_byte_high [simp]: "8 \<le> n \<Longrightarrow> \<not> bit (c :: byte) n"
  using bit_imp_le_length [of c n] by auto

lemma assemble_bits:
  fixes k :: nat
  assumes "k < 8"
  shows "byte_bits (drop_bit k c OR push_bit (8 - k) buf) @ low_bits k c
         = low_bits k buf @ byte_bits c"
  using assms
  by (cases k rule: below_8_cases)
     (simp_all add: byte_bits_def bit_simps eval_nat_numeral del: push_bit_Suc drop_bit_Suc low_bits_numeral)

lemma shift_in_bits:
  fixes k :: nat
  assumes "k < 8"
  shows "low_bits (Suc k) (push_bit 1 buf OR (if c then 1 else 0)) = low_bits k buf @ [c]"
  using assms
  by (cases k rule: below_8_cases)
     (simp_all add: bit_simps eval_nat_numeral del: push_bit_Suc drop_bit_Suc low_bits_numeral)

lemma flush_bits:
  fixes k :: nat
  assumes "k < 8"
  shows "byte_bits (push_bit (8 - k) buf) = low_bits k buf @ replicate (8 - k) False"
  using assms
  by (cases k rule: below_8_cases)
     (simp_all add: byte_bits_def bit_simps eval_nat_numeral del: push_bit_Suc drop_bit_Suc low_bits_numeral)


text \<open>
  What a writer has put so far: the bytes on the file followed by the \<open>bitCount\<close> bits
  waiting in the buffer.  \<open>writes s bs s'\<close> says that \<open>s'\<close> is \<open>s\<close> after the bits \<open>bs\<close>
  were appended, the handle being otherwise as before and still usable.
\<close>

definition out_bits :: "bit_file_t \<Rightarrow> bool list" where
  "out_bits s =
     concat (map byte_bits (written (fp s))) @ low_bits (unat (bitCount s)) (bitBuffer s)"

definition writes :: "bit_file_t \<Rightarrow> bool list \<Rightarrow> bit_file_t \<Rightarrow> bool" where
  "writes s bs s' \<longleftrightarrow>
     out_bits s' = out_bits s @ bs \<and> bitCount s' < 8 \<and> wok (fp s') \<and>
     unread (fp s') = unread (fp s) \<and> PutBitsNumFunc s' = PutBitsNumFunc s \<and>
     GetBitsNumFunc s' = GetBitsNumFunc s \<and> mode s' = mode s"

lemma writes_trans:
  "writes s as s1 \<Longrightarrow> writes s1 bs s2 \<Longrightarrow> writes s (as @ bs) s2"
  by (simp add: writes_def)

lemma unat_count_succ:
  fixes k :: byte
  assumes "k < 8"
  shows "unat (k + 1) = Suc (unat k)" and "k + 1 = 8 \<longleftrightarrow> unat k = 7"
proof -
  from assms have k: "unat k < 8" by (simp add: word_less_nat_alt)
  then show u: "unat (k + 1) = Suc (unat k)" by (simp add: unat_word_ariths)
  show "k + 1 = 8 \<longleftrightarrow> unat k = 7"
  proof
    assume "k + 1 = 8"
    then have "unat (k + 1) = 8" by simp
    with u show "unat k = 7" by simp
  next
    assume "unat k = 7"
    with u have "unat (k + 1) = unat (8 :: byte)" by simp
    then show "k + 1 = 8" by (simp only: word_unat_eq_iff)
  qed
qed

lemma PutBit_writes:
  assumes "bitCount s < 8" and "wok (fp s)"
  shows "\<exists>s'. BitFilePutBit c (Some s) = (c, Some s') \<and> writes s [c \<noteq> 0] s'"
proof -
  let ?k = "unat (bitCount s)"
  let ?b = "push_bit 1 (bitBuffer s) OR (if c \<noteq> 0 then 1 else 0)"
  have k: "?k < 8" using assms(1) by (simp add: word_less_nat_alt)
  note cs = unat_count_succ [OF assms(1)]
  have sh: "low_bits (Suc ?k) ?b = low_bits ?k (bitBuffer s) @ [c \<noteq> 0]"
    by (rule shift_in_bits [OF k])
  show ?thesis
  proof (cases "?k = 7")
    case True
    with sh have "byte_bits ?b = low_bits ?k (bitBuffer s) @ [c \<noteq> 0]"
      by (simp add: byte_bits_def del: low_bits_numeral low_bits_Suc)
    with True assms(2) cs show ?thesis
      by (auto simp: BitFilePutBit_def Let_def fputc_def EOF_def writes_def out_bits_def
               simp del: low_bits_numeral low_bits_Suc)
  next
    case False
    with k have "Suc ?k < 8" by simp
    then have "bitCount s + 1 < 8"
      using cs by (simp add: word_less_nat_alt)
    with False assms(2) cs sh show ?thesis
      by (auto simp: BitFilePutBit_def Let_def writes_def out_bits_def
               simp del: low_bits_numeral low_bits_Suc)
  qed
qed

lemma PutChar_writes:
  assumes "bitCount s < 8" and "wok (fp s)"
  shows "\<exists>s' r. BitFilePutChar c (Some s) = (r, Some s') \<and> r \<noteq> EOF \<and>
           writes s (byte_bits (word_of_int c)) s' \<and> bitCount s' = bitCount s"
proof -
  let ?k = "unat (bitCount s)"
  have k: "?k < 8" using assms(1) by (simp add: word_less_nat_alt)
  show ?thesis
  proof (cases "bitCount s = 0")
    case True
    with assms show ?thesis
      by (auto simp: BitFilePutChar_def fputc_def Let_def writes_def out_bits_def)
  next
    case False
    from assemble_bits [OF k, of "word_of_int c" "bitBuffer s"] False assms show ?thesis
      by (auto simp: BitFilePutChar_def fputc_def Let_def writes_def out_bits_def)
  qed
qed

lemma byte_bits_split:
  fixes k :: nat
  assumes "k < 8"
  shows "byte_bits c = take (8 - k) (byte_bits c) @ low_bits k c"
    and "drop (8 - k) (byte_bits c) = low_bits k c"
  using assms
  by (cases k rule: below_8_cases; simp add: byte_bits_def)+

text \<open>
  Claim C10.  For a byte \<open>c\<close> and a stream that accepts writes: when \<open>bitCount\<close> is not
  zero, \<open>BitFilePutChar\<close> writes and returns the byte \<open>tmp\<close> made of the \<open>bitCount\<close>
  buffered bits followed by the high \<open>8 - bitCount\<close> bits of \<open>c\<close>, the low \<open>bitCount\<close>
  bits of \<open>c\<close> are the bits now waiting in the buffer, and \<open>bitCount\<close> is unchanged; when
  \<open>bitCount\<close> is zero it writes and returns \<open>c\<close>.
\<close>

theorem PutChar_assembled_byte:
  fixes c :: byte
  assumes "bitCount s < 8" and "wok (fp s)"
  shows "(bitCount s \<noteq> 0 \<longrightarrow>
           (\<exists>tmp s'. BitFilePutChar (uint c) (Some s) = (uint tmp, Some s') \<and>
              byte_bits tmp = low_bits (unat (bitCount s)) (bitBuffer s) @
                                take (8 - unat (bitCount s)) (byte_bits c) \<and>
              written (fp s') = written (fp s) @ [tmp] \<and>
              low_bits (unat (bitCount s')) (bitBuffer s') =
                drop (8 - unat (bitCount s)) (byte_bits c) \<and>
              bitCount s' = bitCount s)) \<and>
         (bitCount s = 0 \<longrightarrow>
           (\<exists>s'. BitFilePutChar (uint c) (Some s) = (uint c, Some s') \<and>
              written (fp s') = written (fp s) @ [c] \<and> bitCount s' = 0))"
proof -
  let ?k = "unat (bitCount s)"
  let ?tmp = "drop_bit ?k c OR push_bit (8 - ?k) (bitBuffer s)"
  have k: "?k < 8" using assms(1) by (simp add: word_less_nat_alt)
  have "byte_bits ?tmp @ low_bits ?k c =
        (low_bits ?k (bitBuffer s) @ take (8 - ?k) (byte_bits c)) @ low_bits ?k c"
    using assemble_bits [OF k, of c "bitBuffer s"] byte_bits_split(1) [OF k, of c] by simp
  then have asm: "byte_bits ?tmp = low_bits ?k (bitBuffer s) @ take (8 - ?k) (byte_bits c)"
    by (simp only: append_same_eq)
  show ?thesis
    using assms(2) asm byte_bits_split(2) [OF k, of c]
    by (auto simp: BitFilePutChar_def fputc_def Let_def)
qed

definition stream_3_5 :: bit_file_t where
  "stream_3_5 = \<lparr>fp = \<lparr>unread = [], written = [], wok = True\<rparr>, bitBuffer = 5, bitCount = 3,
                  PutBitsNumFunc = Some PutBitsLE, GetBitsNumFunc = Some GetBitsLE,
                  mode = BF_WRITE\<rparr>"

theorem PutChar_assembled_byte_witness:
  "bitCount stream_3_5 < 8 \<and> wok (fp stream_3_5) \<and> bitCount stream_3_5 \<noteq> 0 \<and>
   BitFilePutChar (uint (0xC3 :: byte)) (Some stream_3_5) =
     (0xB8, Some (stream_3_5\<lparr>fp := \<lparr>unread = [], written = [0xB8], wok = True\<rparr>, bitBuffer := 0xC3\<rparr>))"
proof -
  have h: "bitCount stream_3_5 < 8" "wok (fp stream_3_5)"
    by (simp_all add: stream_3_5_def)
  from PutChar_assembled_byte [OF h, of "0xC3"] show ?thesis
    by (simp add: stream_3_5_def BitFilePutChar_def fputc_def EOF_def)
qed

text \<open>Writing a sequence of bits one at a time.\<close>

definition put_bit_seq :: "int list \<Rightarrow> bit_file_t option \<Rightarrow> bit_file_t option" where
  "put_bit_seq cs stream = fold (\<lambda>c bf. snd (BitFilePutBit c bf)) cs stream"

definition empty_file :: FILE where
  "empty_file = \<lparr>unread = [], written = [], wok = True\<rparr>"

lemma MakeBitFile_Some:
  "MakeBitFile bo (Some f) m =
     Some \<lparr>fp = f, bitBuffer = 0, bitCount = 0,
           PutBitsNumFunc = Some (case DetermineEndianess bo of
               BF_LITTLE_ENDIAN \<Rightarrow> PutBitsLE | BF_BIG_ENDIAN \<Rightarrow> PutBitsBE
             | BF_UNKNOWN_ENDIAN \<Rightarrow> NotSupported),
           GetBitsNumFunc = Some (case DetermineEndianess bo of
               BF_LITTLE_ENDIAN \<Rightarrow> GetBitsLE | BF_BIG_ENDIAN \<Rightarrow> GetBitsBE
             | BF_UNKNOWN_ENDIAN \<Rightarrow> NotSupported),
           mode = m\<rparr>"
  by (simp add: MakeBitFile_def split: endian_t.splits)

lemma DetermineEndianess_simps [simp]:
  "DetermineEndianess LittleEndian = BF_LITTLE_ENDIAN"
  "DetermineEndianess BigEndian = BF_BIG_ENDIAN"
  "DetermineEndianess MixedEndian = BF_UNKNOWN_ENDIAN"
  by (simp_all add: DetermineEndianess_def obj_bytes_def le_bytes_def upt_rec)

text \<open>
  Claim C6.  Closing a stream opened for writing (or appending) whose \<open>bitCount\<close> is not
  zero puts exactly one more byte on the file, the buffer shifted left by \<open>8 - bitCount\<close>:
  the buffered bits followed by zeros.  Closing a null handle returns \<open>EOF\<close>.  The bits
  1,0,1,1,0,0,0,1,1 written one at a time to a fresh stream and closed give the bytes
  \<open>0xB1\<close>, \<open>0x80\<close>.
\<close>

theorem Close_flushes_residual_bits:
  "((mode s = BF_WRITE \<or> mode s = BF_APPEND) \<and> bitCount s \<noteq> 0 \<and> bitCount s < 8 \<and> wok (fp s) \<longrightarrow>
      (\<exists>b. BitFileClose (Some s) = (0, Some ((fp s)\<lparr>written := written (fp s) @ [b]\<rparr>)) \<and>
           b = push_bit (8 - unat (bitCount s)) (bitBuffer s) \<and>
           byte_bits b = low_bits (unat (bitCount s)) (bitBuffer s) @
                           replicate (8 - unat (bitCount s)) False)) \<and>
   BitFileClose None = (EOF, None) \<and>
   BitFileClose (put_bit_seq [1, 0, 1, 1, 0, 0, 0, 1, 1] (MakeBitFile bo (Some empty_file) BF_WRITE)) =
     (0, Some (empty_file\<lparr>written := [0xB1, 0x80]\<rparr>))"
proof (intro conjI impI)
  assume a: "(mode s = BF_WRITE \<or> mode s = BF_APPEND) \<and> bitCount s \<noteq> 0 \<and> bitCount s < 8 \<and> wok (fp s)"
  then have k: "unat (bitCount s) < 8" by (simp add: word_less_nat_alt)
  from a flush_bits [OF k, of "bitBuffer s"]
  show "\<exists>b. BitFileClose (Some s) = (0, Some ((fp s)\<lparr>written := written (fp s) @ [b]\<rparr>)) \<and>
           b = push_bit (8 - unat (bitCount s)) (bitBuffer s) \<and>
           byte_bits b = low_bits (unat (bitCount s)) (bitBuffer s) @
                           replicate (8 - unat (bitCount s)) False"
    by (auto simp: BitFileClose_def flush_residual_def fclose_def fputc_def Let_def)
next
  show "BitFileClose None = (EOF, None)"
    by (simp add: BitFileClose_def)
next
  show "BitFileClose (put_bit_seq [1, 0, 1, 1, 0, 0, 0, 1, 1] (MakeBitFile bo (Some empty_file) BF_WRITE)) =
     (0, Some (empty_file\<lparr>written := [0xB1, 0x80]\<rparr>))"
    by (simp add: put_bit_seq_def MakeBitFile_Some empty_file_def BitFilePutBit_def Let_def
          fputc_def EOF_def BitFileClose_def flush_residual_def fclose_def)
qed

definition stream_1_1 :: bit_file_t where
  "stream_1_1 = \<lparr>fp = \<lparr>unread = [], written = [0xB1], wok = True\<rparr>, bitBuffer = 1, bitCount = 1,
                  PutBitsNumFunc = Some PutBitsLE, GetBitsNumFunc = Some GetBitsLE,
                  mode = BF_WRITE\<rparr>"

theorem Close_flushes_residual_bits_witness:
  "(mode stream_1_1 = BF_WRITE \<or> mode stream_1_1 = BF_APPEND) \<and> bitCount stream_1_1 \<noteq> 0 \<and>
   bitCount stream_1_1 < 8 \<and> wok (fp stream_1_1) \<and>
   BitFileClose (Some stream_1_1) = (0, Some \<lparr>unread = [], written = [0xB1, 0x80], wok = True\<rparr>)"
  using Close_flushes_residual_bits [of stream_1_1 LittleEndian]
  by (simp add: stream_1_1_def)

lemmas bitfile_eval = BitFilePutBitsNum_def BitFileGetBitsNum_def call_num_func_def
  BitFilePutBitsLE_def BitFilePutBitsBE_def BitFileGetBitsLE_def BitFileGetBitsBE_def
  BitFileNotSupported_def put_bits_from_def get_bits_from_def byte_at_def byte_set_def
  BitFilePutChar_def BitFilePutBit_def BitFileGetChar_def BitFileGetBit_def get_bit_msb_def
  fputc_def fgetc_def EOF_def Let_def

text \<open>
  Claim C5 (every numeric transfer with \<open>count > size * 8\<close> is refused), as stated: it
  fails on a little-endian host, where \<open>BitFilePutBitsLE\<close> and \<open>BitFileGetBitsLE\<close>
  discard \<open>size\<close> (\<open>(void)size\<close>).  With \<open>size = 4\<close> and \<open>count = 40\<close> five bytes are
  written, and five bytes are read.
\<close>

theorem little_endian_transfer_ignores_size:
  "ucast (40 :: 32 word) > (4 :: 64 word) * 8 \<and>
   BitFilePutBitsNum (MakeBitFile LittleEndian (Some empty_file) BF_WRITE)
       (Some [1, 2, 3, 4, 5]) 40 4 =
     Some (40, MakeBitFile LittleEndian (Some (empty_file\<lparr>written := [1, 2, 3, 4, 5]\<rparr>)) BF_WRITE,
           Some [1, 2, 3, 4, 5]) \<and>
   BitFileGetBitsNum (MakeBitFile LittleEndian (Some (empty_file\<lparr>unread := [1, 2, 3, 4, 5]\<rparr>)) BF_READ)
       (Some [0, 0, 0, 0, 0]) 40 4 =
     Some (40, MakeBitFile LittleEndian (Some empty_file) BF_READ, Some [1, 2, 3, 4, 5])"
  by (simp add: MakeBitFile_Some empty_file_def bitfile_eval put_whole.simps get_whole.simps)

text \<open>
  Claim C5, amended: through the big-endian functions a transfer with
  \<open>count > size * 8\<close> is refused with \<open>EOF\<close>, the stream and the object untouched.
\<close>

theorem big_endian_transfer_checks_size:
  assumes "ucast cnt > sz * 8"
  shows "(PutBitsNumFunc s = Some PutBitsBE \<longrightarrow>
            BitFilePutBitsNum (Some s) (Some bits) cnt sz = Some (EOF, Some s, Some bits)) \<and>
         (GetBitsNumFunc s = Some GetBitsBE \<longrightarrow>
            BitFileGetBitsNum (Some s) (Some bits) cnt sz = Some (EOF, Some s, Some bits))"
  using assms
  by (simp add: BitFilePutBitsNum_def BitFileGetBitsNum_def call_num_func_def
        BitFilePutBitsBE_def BitFileGetBitsBE_def)

theorem big_endian_transfer_checks_size_witness:
  "ucast (40 :: 32 word) > (4 :: 64 word) * 8 \<and>
   BitFilePutBitsNum (MakeBitFile BigEndian (Some empty_file) BF_WRITE) (Some [1, 2, 3, 4, 5]) 40 4 =
     Some (EOF, MakeBitFile BigEndian (Some empty_file) BF_WRITE, Some [1, 2, 3, 4, 5]) \<and>
   BitFileGetBitsNum (MakeBitFile BigEndian (Some (empty_file\<lparr>unread := [1, 2, 3, 4, 5]\<rparr>)) BF_READ)
       (Some [0, 0, 0, 0, 0]) 40 4 =
     Some (EOF, MakeBitFile BigEndian (Some (empty_file\<lparr>unread := [1, 2, 3, 4, 5]\<rparr>)) BF_READ,
           Some [0, 0, 0, 0, 0])"
proof -
  have h: "ucast (40 :: 32 word) > (4 :: 64 word) * 8" by simp
  show ?thesis
    using h big_endian_transfer_checks_size [OF h, of "the (MakeBitFile BigEndian (Some empty_file) BF_WRITE)" "[1, 2, 3, 4, 5]"]
      big_endian_transfer_checks_size [OF h, of "the (MakeBitFile BigEndian (Some (empty_file\<lparr>unread := [1, 2, 3, 4, 5]\<rparr>)) BF_READ)" "[0, 0, 0, 0, 0]"]
    by (simp add: MakeBitFile_Some)
qed

section \<open>LZSS codec: parameters and match finder\<close>

text \<open>
  Modelled from the spec: the header \<open>lzlocal.h\<close> with the build parameters, the flag
  values, the macro \<open>Wrap\<close> and the type \<open>encoded_string_t\<close> is not among the sources.
  The spec gives \<open>WINDOW_SIZE = 4096\<close>, \<open>MAX_CODED = 18\<close>, \<open>MAX_UNCODED = 2\<close>,
  \<open>OFFSET_BITS = 12\<close>, \<open>LENGTH_BITS = 4\<close>, \<open>UNCODED\<close> as flag 1 and \<open>ENCODED\<close> as
  flag 0, indices advanced modulo the buffer size, and a match descriptor made of an
  offset and a length (both \<open>unsigned int\<close> where the code uses them).
\<close>

definition OFFSET_BITS :: "32 word" where
  "OFFSET_BITS = 12"

definition LENGTH_BITS :: "32 word" where
  "LENGTH_BITS = 4"

definition WINDOW_SIZE :: "32 word" where
  "WINDOW_SIZE = 4096"

definition MAX_UNCODED :: "32 word" where
  "MAX_UNCODED = 2"

definition MAX_CODED :: "32 word" where
  "MAX_CODED = 18"

definition ENCODED :: int where
  "ENCODED = 0"

definition UNCODED :: int where
  "UNCODED = 1"

definition Wrap :: "32 word \<Rightarrow> 32 word \<Rightarrow> 32 word" where
  "Wrap v limit = v mod limit"

record encoded_string_t =
  m_offset :: "32 word"
  m_length :: "32 word"

text \<open>The two global buffers shared by the codec and the match finder.\<close>

record lz_globals =
  slidingWindow :: "byte list"
  uncodedLookahead :: "byte list"

definition InitializeSearchStructures :: int where
  "InitializeSearchStructures = 0"

text \<open>
  \<open>FindMatch\<close> hands the window to the PFAC library and then scans the array
  \<open>h_matched_result\<close> the library filled.  \<open>strlen\<close> and the library are outside the
  program: the model takes the \<open>input_size\<close> entries of \<open>h_matched_result\<close> as a
  parameter and keeps the scan.  The entries are C \<open>int\<close>s; in the comparison with
  \<open>matchData.length\<close>, in the assignment and in the subtraction from \<open>windowHead\<close> they are
  converted to \<open>unsigned int\<close>, so they are \<open>32 word\<close> here.  \<open>uncodedHead\<close> is not
  used by the function.
\<close>

fun match_scan :: "32 word \<Rightarrow> 32 word list \<Rightarrow> encoded_string_t \<Rightarrow> encoded_string_t" where
  "match_scan windowHead [] matchData = matchData"
| "match_scan windowHead (r # rs) matchData =
     match_scan windowHead rs
       (if r \<noteq> 0
        then (if r > m_length matchData
              then matchData\<lparr>m_length := r, m_offset := windowHead - r\<rparr>
              else matchData)
        else matchData)"

definition FindMatch :: "32 word list \<Rightarrow> 32 word \<Rightarrow> 32 word \<Rightarrow> encoded_string_t" where
  "FindMatch h_matched_result windowHead uncodedHead =
     match_scan windowHead h_matched_result \<lparr>m_offset = 0, m_length = 0\<rparr>"

definition ReplaceChar :: "32 word \<Rightarrow> byte \<Rightarrow> 'a lz_globals_scheme \<Rightarrow> int \<times> 'a lz_globals_scheme" where
  "ReplaceChar charIndex replacement g =
     (0, g\<lparr>slidingWindow := (slidingWindow g)[unat charIndex := replacement]\<rparr>)"

section \<open>LZSS codec: encoder\<close>

record enc_state = lz_globals +
  fpIn :: FILE
  bfpOut :: "bit_file_t option"
  windowHead :: "32 word"
  uncodedHead :: "32 word"
  len :: "32 word"

text \<open>\<open>for (len = 0; len < MAX_CODED && (c = getc(fpIn)) != EOF; len++)
  uncodedLookahead[len] = c;\<close>\<close>

function fill_lookahead :: "enc_state \<Rightarrow> enc_state" where
  "fill_lookahead st =
     (if len st < MAX_CODED
      then (case fgetc (fpIn st) of
              (c, f) \<Rightarrow>
                if c \<noteq> EOF
                then fill_lookahead
                       (st\<lparr>fpIn := f,
                           uncodedLookahead := (uncodedLookahead st)[unat (len st) := word_of_int c],
                           len := len st + 1\<rparr>)
                else st\<lparr>fpIn := f\<rparr>)
      else st)"
  by pat_completeness auto
termination
  by (relation "measure (\<lambda>st. 18 - unat (len st))")
     (auto simp: MAX_CODED_def word_less_nat_alt unat_word_ariths)

declare fill_lookahead.simps [simp del]

text \<open>The clamp and the record written for one match (the first half of the loop body).
  The return values of the bit stream calls are not looked at by the program.\<close>

definition emit_record ::
  "byte_order \<Rightarrow> encoded_string_t \<Rightarrow> enc_state \<Rightarrow> (encoded_string_t \<times> enc_state) option" where
  "emit_record bo matchData0 st =
     (let matchData = (if m_length matchData0 > len st
                       then matchData0\<lparr>m_length := len st\<rparr> else matchData0)
      in if m_length matchData \<le> MAX_UNCODED
         then (let (r1, bf1) = BitFilePutBit UNCODED (bfpOut st);
                   (r2, bf2) = BitFilePutChar
                                 (uint (uncodedLookahead st ! unat (uncodedHead st))) bf1
               in Some (matchData\<lparr>m_length := 1\<rparr>, st\<lparr>bfpOut := bf2\<rparr>))
         else (let adjustedLen = m_length matchData - (MAX_UNCODED + 1);
                   (r1, bf1) = BitFilePutBit ENCODED (bfpOut st)
               in do {
                 (r2, bf2, b2) \<leftarrow> BitFilePutBitsNum bf1
                     (Some (obj_bytes bo 4 (unat (m_offset matchData)))) OFFSET_BITS 4;
                 (r3, bf3, b3) \<leftarrow> BitFilePutBitsNum bf2
                     (Some (obj_bytes bo 4 (unat adjustedLen))) LENGTH_BITS 4;
                 Some (matchData, st\<lparr>bfpOut := bf3\<rparr>)
               }))"

lemma unat_succ_below:
  fixes i n :: "32 word"
  assumes "i < n"
  shows "unat (i + 1) = Suc (unat i)"
proof -
  have "unat n < 2 ^ 32"
    using unsigned_less [of n, where ?'a = nat] by simp
  with assms have "Suc (unat i) < 2 ^ 32"
    by (simp add: word_less_nat_alt)
  then show ?thesis
    by (simp add: unat_word_ariths)
qed

text \<open>
  The two loops that replace the bytes just encoded.  Both move the byte under
  \<open>uncodedHead\<close> into the window at \<open>windowHead\<close> (through \<open>ReplaceChar\<close>) and advance
  the heads.  In the first loop, \<open>while ((i < matchData.length) && ((c = getc(fpIn)) != EOF))\<close>,
  the new input byte takes its place in the lookahead (\<open>shift_in\<close> is the loop body); in
  the second, \<open>while (i < matchData.length)\<close>, the input is exhausted and \<open>len\<close> shrinks
  (\<open>shift_out\<close>).
\<close>

definition advance_heads :: "enc_state \<Rightarrow> enc_state" where
  "advance_heads st =
     st\<lparr>windowHead := Wrap (windowHead st + 1) WINDOW_SIZE,
        uncodedHead := Wrap (uncodedHead st + 1) MAX_CODED\<rparr>"

definition shift_in :: "byte \<Rightarrow> enc_state \<Rightarrow> enc_state" where
  "shift_in c st =
     (let st1 = snd (ReplaceChar (windowHead st)
                       (uncodedLookahead st ! unat (uncodedHead st)) st);
          st2 = st1\<lparr>uncodedLookahead := (uncodedLookahead st1)[unat (uncodedHead st1) := c]\<rparr>
      in advance_heads st2)"

definition shift_out :: "enc_state \<Rightarrow> enc_state" where
  "shift_out st =
     (let st1 = snd (ReplaceChar (windowHead st)
                       (uncodedLookahead st ! unat (uncodedHead st)) st);
          st2 = advance_heads st1
      in st2\<lparr>len := len st2 - 1\<rparr>)"

function refill :: "32 word \<Rightarrow> 32 word \<Rightarrow> enc_state \<Rightarrow> 32 word \<times> enc_state" where
  "refill i n st =
     (if i < n
      then (case fgetc (fpIn st) of
              (c, f) \<Rightarrow>
                if c \<noteq> EOF
                then refill (i + 1) n (shift_in (word_of_int c) (st\<lparr>fpIn := f\<rparr>))
                else (i, st\<lparr>fpIn := f\<rparr>))
      else (i, st))"
  by pat_completeness auto
termination
  by (relation "measure (\<lambda>(i, n, st). unat n - unat i)")
     (auto simp: unat_succ_below word_less_nat_alt)

declare refill.simps [simp del]

function drain :: "32 word \<Rightarrow> 32 word \<Rightarrow> enc_state \<Rightarrow> enc_state" where
  "drain i n st = (if i < n then drain (i + 1) n (shift_out st) else st)"
  by pat_completeness auto
termination
  by (relation "measure (\<lambda>(i, n, st). unat n - unat i)")
     (auto simp: unat_succ_below word_less_nat_alt)

declare drain.simps [simp del]

text \<open>One iteration of the main loop of \<open>EncodeLZSS\<close>, up to the next call of the match
  finder.\<close>

definition encode_step :: "byte_order \<Rightarrow> encoded_string_t \<Rightarrow> enc_state \<Rightarrow> enc_state option" where
  "encode_step bo matchData st = do {
     (md, st1) \<leftarrow> emit_record bo matchData st;
     let (i, st2) = refill 0 (m_length md) st1;
     Some (drain i (m_length md) st2)
   }"


subsection \<open>The encoder loop terminates\<close>

lemma shift_in_fpIn: "shift_in c (st\<lparr>fpIn := f\<rparr>) = (shift_in c st)\<lparr>fpIn := f\<rparr>"
  by (simp add: shift_in_def advance_heads_def ReplaceChar_def)

lemma fold_shift_in_fpIn:
  "fold shift_in cs (st\<lparr>fpIn := f\<rparr>) = (fold shift_in cs st)\<lparr>fpIn := f\<rparr>"
  by (induction cs arbitrary: st) (simp_all add: shift_in_fpIn)

lemma word_succ_le:
  fixes i n :: "32 word"
  assumes "i < n"
  shows "i + 1 \<le> n"
  using assms by (simp add: inc_le)

text \<open>The first loop reads as many bytes as it can, up to \<open>n - i\<close>, and shifts them in;
  the second shifts out the rest.\<close>

lemma refill_closed:
  assumes "i \<le> n"
  shows "refill i n st =
     (let k = min (unat n - unat i) (length (unread (fpIn st)))
      in (i + word_of_nat k,
          (fold shift_in (take k (unread (fpIn st))) st)
            \<lparr>fpIn := (fpIn st)\<lparr>unread := drop k (unread (fpIn st))\<rparr>\<rparr>))"
  using assms
proof (induction i n st rule: refill.induct)
  case (1 i n st)
  show ?case
  proof (cases "i < n")
    case False
    with "1.prems" have "i = n" by simp
    then show ?thesis by (simp add: refill.simps [of n n st])
  next
    case lt: True
    then have pos: "0 < unat n - unat i" by (simp add: word_less_nat_alt)
    show ?thesis
    proof (cases "unread (fpIn st)")
      case Nil
      with lt show ?thesis by (simp add: refill.simps [of i n st] fgetc_def)
    next
      case (Cons b bs)
      let ?f = "(fpIn st)\<lparr>unread := bs\<rparr>"
      let ?st' = "shift_in (word_of_int (uint b)) (st\<lparr>fpIn := ?f\<rparr>)"
      have fg: "fgetc (fpIn st) = (uint b, ?f)" by (simp add: fgetc_def Cons)
      have step: "refill i n st = refill (i + 1) n ?st'"
        using lt fg by (simp add: refill.simps [of i n st])
      have le: "i + 1 \<le> n" by (rule word_succ_le [OF lt])
      note ih = "1.IH" [OF lt fg [symmetric] uint_byte_not_EOF le]
      have f': "fpIn ?st' = ?f" by (simp add: shift_in_fpIn)
      have u: "unat (i + 1) = Suc (unat i)" by (rule unat_succ_below [OF lt])
      obtain m where m: "unat n - unat i = Suc m" using pos by (cases "unat n - unat i") auto
      then have m': "unat n - Suc (unat i) = m" by simp
      show ?thesis
        unfolding step ih f' u
        by (simp add: Cons m m' Let_def shift_in_fpIn fold_shift_in_fpIn)
    qed
  qed
qed

lemma drain_closed:
  assumes "i \<le> n"
  shows "drain i n st = (shift_out ^^ (unat n - unat i)) st"
  using assms
proof (induction i n st rule: drain.induct)
  case (1 i n st)
  show ?case
  proof (cases "i < n")
    case False
    with "1.prems" have "i = n" by simp
    then show ?thesis by (simp add: drain.simps [of n n st])
  next
    case lt: True
    have step: "drain i n st = drain (i + 1) n (shift_out st)"
      using lt by (simp add: drain.simps [of i n st])
    have le: "i + 1 \<le> n" by (rule word_succ_le [OF lt])
    have u: "unat (i + 1) = Suc (unat i)" by (rule unat_succ_below [OF lt])
    obtain m where m: "unat n - unat i = Suc m"
      using lt by (cases "unat n - unat i") (auto simp: word_less_nat_alt)
    then have m': "unat n - Suc (unat i) = m" by simp
    note ih = "1.IH" [OF lt le]
    show ?thesis
      unfolding step ih u by (simp add: m m' funpow_swap1)
  qed
qed

lemma fold_shift_in_len_fpIn:
  "len (fold shift_in cs st) = len st \<and> fpIn (fold shift_in cs st) = fpIn st \<and>
   bfpOut (fold shift_in cs st) = bfpOut st"
  by (induction cs arbitrary: st) (simp_all add: shift_in_def advance_heads_def ReplaceChar_def)

lemma funpow_shift_out_len_fpIn:
  "k \<le> unat (len st) \<Longrightarrow>
     unat (len ((shift_out ^^ k) st)) = unat (len st) - k \<and>
     fpIn ((shift_out ^^ k) st) = fpIn st \<and> bfpOut ((shift_out ^^ k) st) = bfpOut st"
proof (induction k arbitrary: st)
  case 0
  then show ?case by simp
next
  case (Suc k)
  have l: "len (shift_out st) = len st - 1" "fpIn (shift_out st) = fpIn st"
    "bfpOut (shift_out st) = bfpOut st"
    by (simp_all add: shift_out_def advance_heads_def ReplaceChar_def)
  from Suc.prems have "len st \<noteq> 0" by auto
  then have ul: "unat (len st - 1) = unat (len st) - 1"
    by (simp add: unat_minus_one)
  with Suc.prems l have "k \<le> unat (len (shift_out st))" by simp
  from Suc.IH [OF this] show ?case
    using l ul by (simp add: funpow_swap1)
qed

lemma refill_props:
  assumes "refill i n st = (i', st')" and "i \<le> n"
  shows "i \<le> i' \<and> i' \<le> n \<and> len st' = len st \<and>
     length (unread (fpIn st')) + unat i' = length (unread (fpIn st)) + unat i"
proof -
  let ?k = "min (unat n - unat i) (length (unread (fpIn st)))"
  from assms have i': "i' = i + word_of_nat ?k"
    and st': "st' = (fold shift_in (take ?k (unread (fpIn st))) st)
                      \<lparr>fpIn := (fpIn st)\<lparr>unread := drop ?k (unread (fpIn st))\<rparr>\<rparr>"
    by (simp_all add: refill_closed Let_def)
  have le: "unat i \<le> unat n" using assms(2) by (simp add: word_le_nat_alt)
  have "unat i + ?k \<le> unat n" using le by simp
  moreover have "unat n < 2 ^ 32" using unsigned_less [of n, where ?'a = nat] by simp
  ultimately have u: "unat i' = unat i + ?k"
    by (simp add: i' unat_word_ariths unat_of_nat)
  then have "i \<le> i'" "i' \<le> n"
    using le by (simp_all add: word_le_nat_alt)
  moreover have "len st' = len st"
    by (simp add: st' fold_shift_in_len_fpIn)
  moreover have "length (unread (fpIn st')) + unat i' = length (unread (fpIn st)) + unat i"
    using u by (simp add: st')
  ultimately show ?thesis by simp
qed

lemma drain_props:
  "i \<le> n \<Longrightarrow> unat n - unat i \<le> unat (len st) \<Longrightarrow>
     fpIn (drain i n st) = fpIn st \<and> unat (len (drain i n st)) = unat (len st) - (unat n - unat i)"
  using funpow_shift_out_len_fpIn [of "unat n - unat i" st] by (simp add: drain_closed)

lemma emit_record_props:
  assumes "emit_record bo md0 st = Some (md, st1)" and "0 < len st"
  shows "fpIn st1 = fpIn st \<and> len st1 = len st \<and> 0 < m_length md \<and> m_length md \<le> len st"
proof -
  have one: "1 \<le> len st"
    using assms(2) by (simp add: word_less_nat_alt word_le_nat_alt)
  show ?thesis
    using assms(1) one
    by (auto simp: emit_record_def Let_def MAX_UNCODED_def word_less_nat_alt word_le_nat_alt
             split: if_splits prod.splits Option.bind_splits)
qed

lemma encode_step_measure:
  assumes "encode_step bo md0 st = Some st'" and "0 < len st"
  shows "unat (len st') + length (unread (fpIn st')) < unat (len st) + length (unread (fpIn st))"
proof -
  from assms(1) obtain md st1 where e: "emit_record bo md0 st = Some (md, st1)"
    by (auto simp: encode_step_def split: Option.bind_splits)
  obtain i st2 where r: "refill 0 (m_length md) st1 = (i, st2)"
    by (cases "refill 0 (m_length md) st1")
  from assms(1) e r have st': "st' = drain i (m_length md) st2"
    by (simp add: encode_step_def)
  from emit_record_props [OF e assms(2)]
  have p1: "fpIn st1 = fpIn st" "len st1 = len st" "0 < m_length md" "m_length md \<le> len st"
    by simp_all
  from refill_props [OF r] have p2: "i \<le> m_length md" "len st2 = len st1"
    "length (unread (fpIn st2)) + unat i = length (unread (fpIn st1))"
    by simp_all
  have pre: "unat (m_length md) - unat i \<le> unat (len st2)"
    using p1 p2 by (simp add: word_le_nat_alt)
  from drain_props [OF p2(1) pre]
  have p3: "fpIn st' = fpIn st2"
    "unat (len st') = unat (len st2) - (unat (m_length md) - unat i)"
    by (simp_all add: st')
  have "0 < unat (m_length md)" "unat (m_length md) \<le> unat (len st)" "unat i \<le> unat (m_length md)"
    using p1 p2 by (simp_all add: word_less_nat_alt word_le_nat_alt)
  then show ?thesis
    using p1 p2 p3 by simp
qed

text \<open>
  The main loop of \<open>EncodeLZSS\<close>.  The match finder is a compile-time plug point of the
  program; \<open>fm\<close> is the finder in use, called with the two global buffers and the two
  heads.
\<close>

type_synonym match_finder = "byte list \<Rightarrow> byte list \<Rightarrow> 32 word \<Rightarrow> 32 word \<Rightarrow> encoded_string_t"

function encode_loop ::
  "match_finder \<Rightarrow> byte_order \<Rightarrow> encoded_string_t \<Rightarrow> enc_state \<Rightarrow> enc_state option" where
  "encode_loop fm bo matchData st =
     (if len st > 0
      then (case encode_step bo matchData st of
              None \<Rightarrow> None
            | Some st' \<Rightarrow>
                encode_loop fm bo
                  (fm (slidingWindow st') (uncodedLookahead st') (windowHead st') (uncodedHead st'))
                  st')
      else Some st)"
  by pat_completeness auto
termination
  by (relation "measure (\<lambda>(fm, bo, matchData, st). unat (len st) + length (unread (fpIn st)))")
     (auto dest: encode_step_measure)

declare encode_loop.simps [simp del]

text \<open>
  \<open>EncodeLZSS\<close> for a given match finder.  Results: the return value, the input file,
  the output file and the global buffers afterwards.  When the input is empty the function
  returns before the bit file is handed back (nothing has been written).
\<close>

definition EncodeLZSS_with ::
  "match_finder \<Rightarrow> byte_order \<Rightarrow> lz_globals \<Rightarrow> FILE option \<Rightarrow> FILE option
     \<Rightarrow> (int \<times> FILE option \<times> FILE option \<times> lz_globals) option" where
  "EncodeLZSS_with fm bo g fIn fOut =
     (case (fIn, fOut) of
        (Some fin, Some fout) \<Rightarrow>
          (case MakeBitFile bo fOut BF_WRITE of
             None \<Rightarrow> Some (- 1, fIn, fOut, g)
           | Some bf \<Rightarrow>
               (let st0 = \<lparr>slidingWindow = replicate (unat WINDOW_SIZE) 0x20,
                           uncodedLookahead = uncodedLookahead g,
                           fpIn = fin, bfpOut = Some bf,
                           windowHead = 0, uncodedHead = 0, len = 0\<rparr>;
                    st1 = fill_lookahead st0
                in if len st1 = 0
                   then Some (0, Some (fpIn st1), fOut, lz_globals.truncate st1)
                   else if InitializeSearchStructures \<noteq> 0
                   then Some (InitializeSearchStructures, Some (fpIn st1), fOut,
                              lz_globals.truncate st1)
                   else (case encode_loop fm bo
                                 (fm (slidingWindow st1) (uncodedLookahead st1)
                                     (windowHead st1) (uncodedHead st1)) st1 of
                           None \<Rightarrow> None
                         | Some st2 \<Rightarrow>
                             Some (0, Some (fpIn st2), BitFileToFILE (bfpOut st2),
                                   lz_globals.truncate st2))))
      | _ \<Rightarrow> Some (- 1, fIn, fOut, g))"

text \<open>
  The program as built: the finder is \<open>FindMatch\<close>, whose \<open>h_matched_result\<close> comes from
  the external library for the current window and lookahead (\<open>pfac\<close>).
\<close>

definition EncodeLZSS ::
  "(byte list \<Rightarrow> byte list \<Rightarrow> 32 word list) \<Rightarrow> byte_order \<Rightarrow> lz_globals \<Rightarrow> FILE option
     \<Rightarrow> FILE option \<Rightarrow> (int \<times> FILE option \<times> FILE option \<times> lz_globals) option" where
  "EncodeLZSS pfac = EncodeLZSS_with (\<lambda>w l wh uh. FindMatch (pfac w l) wh uh)"

section \<open>LZSS codec: the records on the wire\<close>

lemma take_byte_bits_shift:
  fixes n :: nat
  assumes "n < 8"
  shows "take (Suc n) (byte_bits tmp) = bit tmp 7 # take n (byte_bits (push_bit 1 tmp))"
  using assms
  by (cases n rule: below_8_cases)
     (simp_all add: byte_bits_def bit_simps eval_nat_numeral del: push_bit_Suc drop_bit_Suc low_bits_numeral)

lemma top_bit_mask: "uint ((tmp :: byte) AND 0x80) \<noteq> 0 \<longleftrightarrow> bit tmp 7"
proof -
  have "tmp AND 2 ^ 7 = 0 \<longleftrightarrow> \<not> bit tmp 7"
    by (rule and_exp_eq_0_iff_not_bit)
  moreover have "(2 :: byte) ^ 7 = 0x80" by simp
  ultimately have "tmp AND 0x80 = 0 \<longleftrightarrow> \<not> bit tmp 7" by simp
  then show ?thesis by (simp add: uint_0_iff)
qed

lemma put_tail_writes:
  assumes "n \<le> 8" and "bitCount s < 8" and "wok (fp s)"
  shows "\<exists>s'. put_tail (Some s) tmp (int n) = (None, Some s') \<and> writes s (take n (byte_bits tmp)) s'"
  using assms
proof (induction n arbitrary: s tmp)
  case 0
  then show ?case by (simp add: put_tail.simps [of _ _ 0] writes_def)
next
  case (Suc n)
  from PutBit_writes [OF Suc.prems(2,3), of "uint (tmp AND 0x80)"]
  obtain s1 where p: "BitFilePutBit (uint (tmp AND 0x80)) (Some s) = (uint (tmp AND 0x80), Some s1)"
    and w1: "writes s [uint (tmp AND 0x80) \<noteq> 0] s1"
    by blast
  from w1 have inv: "bitCount s1 < 8" "wok (fp s1)" by (simp_all add: writes_def)
  from Suc.prems have n: "n \<le> 8" "n < 8" by simp_all
  from Suc.IH [OF n(1) inv, of "push_bit 1 tmp"]
  obtain s' where t: "put_tail (Some s1) (push_bit 1 tmp) (int n) = (None, Some s')"
    and w2: "writes s1 (take n (byte_bits (push_bit 1 tmp))) s'"
    by blast
  have "put_tail (Some s) tmp (int (Suc n)) = put_tail (Some s1) (push_bit 1 tmp) (int n)"
    by (subst put_tail.simps) (simp add: p)
  with t have "put_tail (Some s) tmp (int (Suc n)) = (None, Some s')"
    by simp
  moreover have "writes s (take (Suc n) (byte_bits tmp)) s'"
    using writes_trans [OF w1 w2] by (simp add: take_byte_bits_shift [OF n(2)] top_bit_mask)
  ultimately show ?case by blast
qed

text \<open>
  The handle was made on a host of byte order \<open>bo\<close> that the bit stream layer supports:
  its numeric functions are the little-endian pair on a little-endian host, the
  big-endian pair on a big-endian one.
\<close>

definition host_funcs :: "byte_order \<Rightarrow> bit_file_t \<Rightarrow> bool" where
  "host_funcs bo s \<longleftrightarrow>
     (bo = LittleEndian \<and> PutBitsNumFunc s = Some PutBitsLE \<and> GetBitsNumFunc s = Some GetBitsLE) \<or>
     (bo = BigEndian \<and> PutBitsNumFunc s = Some PutBitsBE \<and> GetBitsNumFunc s = Some GetBitsBE)"

text \<open>
  The two fields of an encoded record as they appear on the wire: of the offset the low
  byte goes first, then bits 11 to 8; of the adjusted length bits 3 to 0.  Both byte
  orders produce the same bits.
\<close>

definition offset_bits :: "32 word \<Rightarrow> bool list" where
  "offset_bits w = map (bit w) [7, 6, 5, 4, 3, 2, 1, 0, 11, 10, 9, 8]"

definition length_bits :: "32 word \<Rightarrow> bool list" where
  "length_bits w = map (bit w) [3, 2, 1, 0]"

lemma le_bytes_4:
  "le_bytes 4 v = [word_of_nat v, word_of_nat (v div 256), word_of_nat (v div 65536),
                   word_of_nat (v div 16777216)]"
  by (simp add: le_bytes_def upt_rec)

lemma byte0_bits:
  "byte_bits (word_of_nat (unat (w :: 32 word))) = map (bit w) [7, 6, 5, 4, 3, 2, 1, 0]"
  by (simp add: byte_bits_def bit_simps)

lemma byte1_low_bits:
  "low_bits 4 (word_of_nat (unat (w :: 32 word) div 256)) = map (bit w) [11, 10, 9, 8]"
proof -
  have "unat w div 256 = unat (drop_bit 8 w)"
    by (simp only: unat_drop_bit_eq) (simp add: drop_bit_eq_div)
  then show ?thesis
    by (simp add: bit_simps)
qed

lemma byte0_low_bits:
  "low_bits 4 (word_of_nat (unat (w :: 32 word))) = map (bit w) [3, 2, 1, 0]"
  by (simp add: bit_simps)

lemma take_shifted_bits:
  fixes n :: nat
  assumes "n < 8"
  shows "take n (byte_bits (push_bit (8 - n) b)) = low_bits n b"
  using flush_bits [OF assms, of b] by simp

lemma put_bits_from_12:
  assumes "bitCount s < 8" and "wok (fp s)"
    and "byte_at bytes off0 = Some b0" and "byte_at bytes (off0 + step) = Some b1"
  shows "\<exists>s'. put_bits_from step (Some s) bytes 12 off0 = Some (12, Some s', bytes) \<and>
              writes s (byte_bits b0 @ low_bits 4 b1) s'"
proof -
  from PutChar_writes [OF assms(1,2), of "uint b0"]
  obtain s1 r where p1: "BitFilePutChar (uint b0) (Some s) = (r, Some s1)" "r \<noteq> EOF"
    and w1: "writes s (byte_bits b0) s1"
    by auto
  from w1 have inv: "bitCount s1 < 8" "wok (fp s1)" by (simp_all add: writes_def)
  from put_tail_writes [OF _ inv, of 4 "push_bit 4 b1"]
  obtain s2 where p2: "put_tail (Some s1) (push_bit 4 b1) 4 = (None, Some s2)"
    and w2: "writes s1 (take 4 (byte_bits (push_bit 4 b1))) s2"
    by auto
  have t: "take 4 (byte_bits (push_bit 4 b1)) = low_bits 4 b1"
    using take_shifted_bits [of 4 b1] by simp
  have "put_whole step (Some s) bytes off0 12 = Some (None, Some s1, off0 + step, 4)"
    using p1 assms(3) by (simp add: put_whole.simps)
  then have "put_bits_from step (Some s) bytes 12 off0 = Some (12, Some s2, bytes)"
    using p2 assms(4) by (simp add: put_bits_from_def)
  moreover have "writes s (byte_bits b0 @ low_bits 4 b1) s2"
    using writes_trans [OF w1 w2] t by simp
  ultimately show ?thesis by blast
qed

lemma put_bits_from_4:
  assumes "bitCount s < 8" and "wok (fp s)" and "byte_at bytes off0 = Some b0"
  shows "\<exists>s'. put_bits_from step (Some s) bytes 4 off0 = Some (4, Some s', bytes) \<and>
              writes s (low_bits 4 b0) s'"
proof -
  from put_tail_writes [OF _ assms(1,2), of 4 "push_bit 4 b0"]
  obtain s2 where p2: "put_tail (Some s) (push_bit 4 b0) 4 = (None, Some s2)"
    and w2: "writes s (take 4 (byte_bits (push_bit 4 b0))) s2"
    by auto
  have t: "take 4 (byte_bits (push_bit 4 b0)) = low_bits 4 b0"
    using take_shifted_bits [of 4 b0] by simp
  have "put_whole step (Some s) bytes off0 4 = Some (None, Some s, off0, 4)"
    by (simp add: put_whole.simps)
  then have "put_bits_from step (Some s) bytes 4 off0 = Some (4, Some s2, bytes)"
    using p2 assms(3) by (simp add: put_bits_from_def)
  with w2 t show ?thesis by auto
qed

lemma PutBitsNum_offset:
  assumes "bitCount s < 8" and "wok (fp s)" and "host_funcs bo s"
  shows "\<exists>s' r b. BitFilePutBitsNum (Some s) (Some (obj_bytes bo 4 (unat w))) OFFSET_BITS 4
                     = Some (r, Some s', b) \<and> writes s (offset_bits w) s'"
proof -
  let ?v = "unat w"
  let ?b0 = "word_of_nat ?v :: byte"
  let ?b1 = "word_of_nat (?v div 256) :: byte"
  have bits: "byte_bits ?b0 @ low_bits 4 ?b1 = offset_bits w"
    by (simp only: byte0_bits byte1_low_bits offset_bits_def map_append [symmetric]) simp
  from assms(3) consider
      (le) "bo = LittleEndian" "PutBitsNumFunc s = Some PutBitsLE"
    | (be) "bo = BigEndian" "PutBitsNumFunc s = Some PutBitsBE"
    by (auto simp: host_funcs_def)
  then show ?thesis
  proof cases
    case le
    from put_bits_from_12 [OF assms(1,2), of "le_bytes 4 ?v" 0 ?b0 1 ?b1]
    obtain s' where "put_bits_from 1 (Some s) (le_bytes 4 ?v) 12 0 = Some (12, Some s', le_bytes 4 ?v)"
      "writes s (byte_bits ?b0 @ low_bits 4 ?b1) s'"
      by (auto simp: le_bytes_4 byte_at_def)
    with le bits show ?thesis
      by (simp add: BitFilePutBitsNum_def call_num_func_def BitFilePutBitsLE_def obj_bytes_def
            OFFSET_BITS_def)
  next
    case be
    from put_bits_from_12 [OF assms(1,2), of "rev (le_bytes 4 ?v)" 3 ?b0 "- 1" ?b1]
    obtain s' where "put_bits_from (- 1) (Some s) (rev (le_bytes 4 ?v)) 12 3
                       = Some (12, Some s', rev (le_bytes 4 ?v))"
      "writes s (byte_bits ?b0 @ low_bits 4 ?b1) s'"
      by (auto simp: le_bytes_4 byte_at_def)
    with be bits show ?thesis
      by (simp add: BitFilePutBitsNum_def call_num_func_def BitFilePutBitsBE_def obj_bytes_def
            OFFSET_BITS_def)
  qed
qed

lemma PutBitsNum_length:
  assumes "bitCount s < 8" and "wok (fp s)" and "host_funcs bo s"
  shows "\<exists>s' r b. BitFilePutBitsNum (Some s) (Some (obj_bytes bo 4 (unat w))) LENGTH_BITS 4
                     = Some (r, Some s', b) \<and> writes s (length_bits w) s'"
proof -
  let ?v = "unat w"
  let ?b0 = "word_of_nat ?v :: byte"
  have bits: "low_bits 4 ?b0 = length_bits w"
    by (simp only: byte0_low_bits length_bits_def)
  from assms(3) consider
      (le) "bo = LittleEndian" "PutBitsNumFunc s = Some PutBitsLE"
    | (be) "bo = BigEndian" "PutBitsNumFunc s = Some PutBitsBE"
    by (auto simp: host_funcs_def)
  then show ?thesis
  proof cases
    case le
    from put_bits_from_4 [OF assms(1,2), of "le_bytes 4 ?v" 0 ?b0 1]
    obtain s' where "put_bits_from 1 (Some s) (le_bytes 4 ?v) 4 0 = Some (4, Some s', le_bytes 4 ?v)"
      "writes s (low_bits 4 ?b0) s'"
      by (auto simp: le_bytes_4 byte_at_def)
    with le bits show ?thesis
      by (simp add: BitFilePutBitsNum_def call_num_func_def BitFilePutBitsLE_def obj_bytes_def
            LENGTH_BITS_def)
  next
    case be
    from put_bits_from_4 [OF assms(1,2), of "rev (le_bytes 4 ?v)" 3 ?b0 "- 1"]
    obtain s' where "put_bits_from (- 1) (Some s) (rev (le_bytes 4 ?v)) 4 3
                       = Some (4, Some s', rev (le_bytes 4 ?v))"
      "writes s (low_bits 4 ?b0) s'"
      by (auto simp: le_bytes_4 byte_at_def)
    with be bits show ?thesis
      by (simp add: BitFilePutBitsNum_def call_num_func_def BitFilePutBitsBE_def obj_bytes_def
            LENGTH_BITS_def)
  qed
qed

text \<open>The match length after the clamp \<open>if (matchData.length > len) matchData.length = len\<close>.\<close>

definition clamped :: "encoded_string_t \<Rightarrow> enc_state \<Rightarrow> 32 word" where
  "clamped md st = (if m_length md > len st then len st else m_length md)"

lemma emit_record_writes:
  assumes "bfpOut st = Some s" and "bitCount s < 8" and "wok (fp s)" and "host_funcs bo s"
  shows "\<exists>s'. emit_record bo md st =
            Some (md\<lparr>m_length := (if clamped md st \<le> MAX_UNCODED then 1 else clamped md st)\<rparr>,
                  st\<lparr>bfpOut := Some s'\<rparr>) \<and>
          writes s (if clamped md st \<le> MAX_UNCODED
                    then True # byte_bits (uncodedLookahead st ! unat (uncodedHead st))
                    else False # offset_bits (m_offset md) @
                         length_bits (clamped md st - (MAX_UNCODED + 1))) s'"
proof (cases "clamped md st \<le> MAX_UNCODED")
  case True
  from PutBit_writes [OF assms(2,3), of UNCODED]
  obtain s1 where p1: "BitFilePutBit UNCODED (Some s) = (UNCODED, Some s1)"
    and w1: "writes s [True] s1"
    by (auto simp: UNCODED_def)
  from w1 have inv: "bitCount s1 < 8" "wok (fp s1)" by (simp_all add: writes_def)
  from PutChar_writes [OF inv, of "uint (uncodedLookahead st ! unat (uncodedHead st))"]
  obtain s2 r where p2: "BitFilePutChar (uint (uncodedLookahead st ! unat (uncodedHead st))) (Some s1)
                          = (r, Some s2)"
    and w2: "writes s1 (byte_bits (uncodedLookahead st ! unat (uncodedHead st))) s2"
    by auto
  from writes_trans [OF w1 w2] True p1 p2 assms(1) show ?thesis
    by (auto simp: emit_record_def clamped_def Let_def)
next
  case False
  let ?md = "if m_length md > len st then md\<lparr>m_length := len st\<rparr> else md"
  have lm: "m_length ?md = clamped md st" "m_offset ?md = m_offset md"
    by (simp_all add: clamped_def)
  have mdeq: "?md = md\<lparr>m_length := clamped md st\<rparr>"
    by (simp add: clamped_def)
  from PutBit_writes [OF assms(2,3), of ENCODED]
  obtain s1 where p1: "BitFilePutBit ENCODED (Some s) = (ENCODED, Some s1)"
    and w1: "writes s [False] s1"
    by (auto simp: ENCODED_def)
  from w1 assms(4) have inv1: "bitCount s1 < 8" "wok (fp s1)" "host_funcs bo s1"
    by (simp_all add: writes_def host_funcs_def)
  from PutBitsNum_offset [OF inv1, of "m_offset md"]
  obtain s2 r2 b2 where p2: "BitFilePutBitsNum (Some s1) (Some (obj_bytes bo 4 (unat (m_offset md))))
                               OFFSET_BITS 4 = Some (r2, Some s2, b2)"
    and w2: "writes s1 (offset_bits (m_offset md)) s2"
    by blast
  from w2 inv1 have inv2: "bitCount s2 < 8" "wok (fp s2)" "host_funcs bo s2"
    by (simp_all add: writes_def host_funcs_def)
  from PutBitsNum_length [OF inv2, of "clamped md st - (MAX_UNCODED + 1)"]
  obtain s3 r3 b3 where p3: "BitFilePutBitsNum (Some s2)
        (Some (obj_bytes bo 4 (unat (clamped md st - (MAX_UNCODED + 1))))) LENGTH_BITS 4
          = Some (r3, Some s3, b3)"
    and w3: "writes s2 (length_bits (clamped md st - (MAX_UNCODED + 1))) s3"
    by blast
  have "emit_record bo md st = Some (md\<lparr>m_length := clamped md st\<rparr>, st\<lparr>bfpOut := Some s3\<rparr>)"
    using False p1 p2 p3 assms(1) lm
    by (simp add: emit_record_def Let_def mdeq [symmetric])
  moreover have "writes s (False # offset_bits (m_offset md) @
                   length_bits (clamped md st - (MAX_UNCODED + 1))) s3"
    using writes_trans [OF w1 writes_trans [OF w2 w3]] by simp
  ultimately show ?thesis using False by auto
qed

definition heads_advanced :: "enc_state \<Rightarrow> nat \<Rightarrow> enc_state \<Rightarrow> bool" where
  "heads_advanced st k st' \<longleftrightarrow>
     unat (windowHead st') = (unat (windowHead st) + k) mod 4096 \<and>
     unat (uncodedHead st') = (unat (uncodedHead st) + k) mod 18"

lemma unat_Wrap_window: "unat (Wrap (w + 1) WINDOW_SIZE) = (unat w + 1) mod 4096"
proof -
  have "unat (Wrap (w + 1) WINDOW_SIZE) = ((unat w + 1) mod 2 ^ 32) mod 4096"
    by (simp add: Wrap_def WINDOW_SIZE_def unat_mod unat_word_ariths)
  also have "\<dots> = (unat w + 1) mod 4096"
    by (rule mod_mod_cancel) simp
  finally show ?thesis .
qed

lemma unat_Wrap_coded:
  assumes "w < MAX_CODED"
  shows "unat (Wrap (w + 1) MAX_CODED) = (unat w + 1) mod 18"
proof -
  have "unat (w + 1) = Suc (unat w)" by (rule unat_succ_below [OF assms])
  then show ?thesis by (simp add: Wrap_def MAX_CODED_def unat_mod)
qed

lemma mod_18_less: "unat (w :: 32 word) = k mod 18 \<Longrightarrow> w < MAX_CODED"
  by (simp add: word_less_nat_alt MAX_CODED_def)

lemma heads_advanced_0: "heads_advanced st 0 st'
    \<longleftrightarrow> unat (windowHead st') = unat (windowHead st) mod 4096 \<and>
        unat (uncodedHead st') = unat (uncodedHead st) mod 18"
  by (simp add: heads_advanced_def)

lemma advance_heads_step:
  assumes "uncodedHead st < MAX_CODED"
  shows "unat (windowHead (advance_heads st)) = (unat (windowHead st) + 1) mod 4096"
    and "unat (uncodedHead (advance_heads st)) = (unat (uncodedHead st) + 1) mod 18"
    and "uncodedHead (advance_heads st) < MAX_CODED"
proof -
  show "unat (windowHead (advance_heads st)) = (unat (windowHead st) + 1) mod 4096"
    by (simp add: advance_heads_def unat_Wrap_window)
  show u: "unat (uncodedHead (advance_heads st)) = (unat (uncodedHead st) + 1) mod 18"
    by (simp add: advance_heads_def unat_Wrap_coded [OF assms])
  show "uncodedHead (advance_heads st) < MAX_CODED"
    by (rule mod_18_less [OF u])
qed

lemma shift_in_heads:
  assumes "uncodedHead st < MAX_CODED"
  shows "unat (windowHead (shift_in c st)) = (unat (windowHead st) + 1) mod 4096"
    and "unat (uncodedHead (shift_in c st)) = (unat (uncodedHead st) + 1) mod 18"
    and "uncodedHead (shift_in c st) < MAX_CODED"
  using advance_heads_step [of "(snd (ReplaceChar (windowHead st)
                       (uncodedLookahead st ! unat (uncodedHead st)) st))
          \<lparr>uncodedLookahead := (uncodedLookahead st)[unat (uncodedHead st) := c]\<rparr>"] assms
  by (simp_all add: shift_in_def ReplaceChar_def)

lemma shift_out_heads:
  assumes "uncodedHead st < MAX_CODED"
  shows "unat (windowHead (shift_out st)) = (unat (windowHead st) + 1) mod 4096"
    and "unat (uncodedHead (shift_out st)) = (unat (uncodedHead st) + 1) mod 18"
    and "uncodedHead (shift_out st) < MAX_CODED"
  using advance_heads_step [of "snd (ReplaceChar (windowHead st)
                       (uncodedLookahead st ! unat (uncodedHead st)) st)"] assms
  by (simp_all add: shift_out_def ReplaceChar_def Let_def)

lemma mod_4096_less: "unat (w :: 32 word) = k mod 4096 \<Longrightarrow> w < WINDOW_SIZE"
  by (simp add: word_less_nat_alt WINDOW_SIZE_def)

lemma fold_shift_in_heads:
  assumes "windowHead st < WINDOW_SIZE" and "uncodedHead st < MAX_CODED"
  shows "unat (windowHead (fold shift_in cs st)) = (unat (windowHead st) + length cs) mod 4096 \<and>
         unat (uncodedHead (fold shift_in cs st)) = (unat (uncodedHead st) + length cs) mod 18 \<and>
         windowHead (fold shift_in cs st) < WINDOW_SIZE \<and>
         uncodedHead (fold shift_in cs st) < MAX_CODED"
  using assms
proof (induction cs arbitrary: st)
  case Nil
  then show ?case
    by (simp add: word_less_nat_alt MAX_CODED_def WINDOW_SIZE_def)
next
  case (Cons c cs)
  note h = shift_in_heads [OF Cons.prems(2), of c]
  from Cons.IH [OF mod_4096_less [OF h(1)] h(3)] show ?case
    by (simp add: h(1,2) mod_add_left_eq)
qed

lemma funpow_shift_out_heads:
  assumes "windowHead st < WINDOW_SIZE" and "uncodedHead st < MAX_CODED"
  shows "unat (windowHead ((shift_out ^^ k) st)) = (unat (windowHead st) + k) mod 4096 \<and>
         unat (uncodedHead ((shift_out ^^ k) st)) = (unat (uncodedHead st) + k) mod 18 \<and>
         windowHead ((shift_out ^^ k) st) < WINDOW_SIZE \<and>
         uncodedHead ((shift_out ^^ k) st) < MAX_CODED"
  using assms
proof (induction k arbitrary: st)
  case 0
  then show ?case
    by (simp add: word_less_nat_alt MAX_CODED_def WINDOW_SIZE_def)
next
  case (Suc k)
  note h = shift_out_heads [OF Suc.prems(2)]
  from Suc.IH [OF mod_4096_less [OF h(1)] h(3)] show ?case
    by (simp add: h(1,2) mod_add_left_eq funpow_swap1)
qed

text \<open>The two loops together, for a state whose heads are in range: \<open>k\<close> bytes are
  read and shifted in, the other \<open>n - k\<close> positions are shifted out.\<close>

lemma replace_closed:
  obtains k cs where "k \<le> unat n" and "k = min (unat n) (length (unread (fpIn st)))"
    and "cs = take k (unread (fpIn st))" and "length cs = k"
    and "(case refill 0 n st of (i, st') \<Rightarrow> drain i n st') =
           (shift_out ^^ (unat n - k))
             ((fold shift_in cs st)\<lparr>fpIn := (fpIn st)\<lparr>unread := drop k (unread (fpIn st))\<rparr>\<rparr>)"
proof -
  define k where "k = min (unat n) (length (unread (fpIn st)))"
  define cs where "cs = take k (unread (fpIn st))"
  define st2 where
    "st2 = (fold shift_in cs st)\<lparr>fpIn := (fpIn st)\<lparr>unread := drop k (unread (fpIn st))\<rparr>\<rparr>"
  have kn: "k \<le> unat n" by (simp add: k_def)
  have lc: "length cs = k" by (simp add: cs_def k_def)
  have r: "refill 0 n st = (word_of_nat k, st2)"
    using refill_closed [of 0 n st] by (simp add: Let_def k_def cs_def st2_def)
  have "unat n < 2 ^ 32" using unsigned_less [of n, where ?'a = nat] by simp
  with kn have uk: "unat (word_of_nat k :: 32 word) = k"
    by (simp add: unat_of_nat)
  then have le: "(word_of_nat k :: 32 word) \<le> n"
    using kn by (simp add: word_le_nat_alt)
  have "drain (word_of_nat k) n st2 = (shift_out ^^ (unat n - k)) st2"
    using drain_closed [OF le, of st2] uk by simp
  with r have eq: "(case refill 0 n st of (i, st') \<Rightarrow> drain i n st') = (shift_out ^^ (unat n - k)) st2"
    by simp
  show thesis
  proof (rule that [of k cs])
    show "k \<le> unat n" by (fact kn)
    show "k = min (unat n) (length (unread (fpIn st)))" by (fact k_def)
    show "cs = take k (unread (fpIn st))" by (fact cs_def)
    show "length cs = k" by (fact lc)
    show "(case refill 0 n st of (i, st') \<Rightarrow> drain i n st') =
           (shift_out ^^ (unat n - k))
             ((fold shift_in cs st)\<lparr>fpIn := (fpIn st)\<lparr>unread := drop k (unread (fpIn st))\<rparr>\<rparr>)"
      using eq by (simp only: st2_def)
  qed
qed

lemma replace_heads:
  assumes "windowHead st < WINDOW_SIZE" and "uncodedHead st < MAX_CODED"
  shows "unat (windowHead (case refill 0 n st of (i, st') \<Rightarrow> drain i n st'))
           = (unat (windowHead st) + unat n) mod 4096 \<and>
         unat (uncodedHead (case refill 0 n st of (i, st') \<Rightarrow> drain i n st'))
           = (unat (uncodedHead st) + unat n) mod 18 \<and>
         bfpOut (case refill 0 n st of (i, st') \<Rightarrow> drain i n st') = bfpOut st"
proof -
  obtain k cs where kn: "k \<le> unat n" and cs: "length cs = k"
    and eq0: "(case refill 0 n st of (i, st') \<Rightarrow> drain i n st') = (shift_out ^^ (unat n - k))
       ((fold shift_in cs st)\<lparr>fpIn := (fpIn st)\<lparr>unread := drop k (unread (fpIn st))\<rparr>\<rparr>)"
    by (rule replace_closed [of n st])
  define st2 where
    "st2 = (fold shift_in cs st)\<lparr>fpIn := (fpIn st)\<lparr>unread := drop k (unread (fpIn st))\<rparr>\<rparr>"
  have eq: "(case refill 0 n st of (i, st') \<Rightarrow> drain i n st') = (shift_out ^^ (unat n - k)) st2"
    using eq0 by (simp add: st2_def)
  note f = fold_shift_in_heads [OF assms, of cs]
  have h2: "windowHead st2 < WINDOW_SIZE" "uncodedHead st2 < MAX_CODED"
    and w2: "unat (windowHead st2) = (unat (windowHead st) + k) mod 4096"
    and u2: "unat (uncodedHead st2) = (unat (uncodedHead st) + k) mod 18"
    and o2: "bfpOut st2 = bfpOut st"
    using f cs by (simp_all add: st2_def fold_shift_in_len_fpIn)
  note g = funpow_shift_out_heads [OF h2, of "unat n - k"]
  have mod_step: "((x + k) mod m + (unat n - k)) mod m = (x + unat n) mod m" for x m :: nat
  proof -
    have "((x + k) mod m + (unat n - k)) mod m = ((x + k) + (unat n - k)) mod m"
      by (rule mod_add_left_eq)
    also have "(x + k) + (unat n - k) = x + unat n" using kn by simp
    finally show ?thesis .
  qed
  note a = mod_step [of "unat (windowHead st)" 4096]
  note b = mod_step [of "unat (uncodedHead st)" 18]
  have out: "bfpOut ((shift_out ^^ m) st2) = bfpOut st2" for m
    by (induction m) (simp_all add: shift_out_def advance_heads_def ReplaceChar_def Let_def)
  have "unat (windowHead ((shift_out ^^ (unat n - k)) st2)) = (unat (windowHead st) + unat n) mod 4096"
    using g w2 a by simp
  moreover have "unat (uncodedHead ((shift_out ^^ (unat n - k)) st2)) = (unat (uncodedHead st) + unat n) mod 18"
    using g u2 b by simp
  moreover have "bfpOut ((shift_out ^^ (unat n - k)) st2) = bfpOut st"
    using out o2 by simp
  ultimately show ?thesis
    unfolding eq by simp
qed

text \<open>
  Claim C7.  One iteration of the encoder loop, for a match \<open>matchData\<close> and a state whose
  output stream accepts writes (on a host the bit stream layer supports, with the heads in
  range).  The length is first clamped to \<open>len\<close>.  If the clamped length is at most
  \<open>MAX_UNCODED\<close> the bits appended to the output are the flag 1 and the eight bits of
  \<open>uncodedLookahead[uncodedHead]\<close>, and both heads advance by 1 (modulo their buffer
  sizes).  Otherwise the bits appended are the flag 0, the offset in \<open>OFFSET_BITS = 12\<close>
  bits and the length minus \<open>MAX_UNCODED + 1\<close> in \<open>LENGTH_BITS = 4\<close> bits, and both
  heads advance by the clamped length.
\<close>

theorem encode_step_emits_record:
  assumes "bfpOut st = Some s" and "bitCount s < 8" and "wok (fp s)" and "host_funcs bo s"
    and "windowHead st < WINDOW_SIZE" and "uncodedHead st < MAX_CODED"
  shows "\<exists>st' s'. encode_step bo matchData st = Some st' \<and> bfpOut st' = Some s' \<and>
     (if clamped matchData st \<le> MAX_UNCODED
      then writes s (True # byte_bits (uncodedLookahead st ! unat (uncodedHead st))) s' \<and>
           unat (windowHead st') = (unat (windowHead st) + 1) mod 4096 \<and>
           unat (uncodedHead st') = (unat (uncodedHead st) + 1) mod 18
      else writes s (False # offset_bits (m_offset matchData) @
                       length_bits (clamped matchData st - (MAX_UNCODED + 1))) s' \<and>
           unat (windowHead st') =
             (unat (windowHead st) + unat (clamped matchData st)) mod 4096 \<and>
           unat (uncodedHead st') =
             (unat (uncodedHead st) + unat (clamped matchData st)) mod 18)"
proof -
  define n where "n = (if clamped matchData st \<le> MAX_UNCODED then 1 else clamped matchData st)"
  from emit_record_writes [OF assms(1-4), of matchData]
  obtain s' where e: "emit_record bo matchData st =
        Some (matchData\<lparr>m_length := n\<rparr>, st\<lparr>bfpOut := Some s'\<rparr>)"
    and w: "writes s (if clamped matchData st \<le> MAX_UNCODED
                    then True # byte_bits (uncodedLookahead st ! unat (uncodedHead st))
                    else False # offset_bits (m_offset matchData) @
                         length_bits (clamped matchData st - (MAX_UNCODED + 1))) s'"
    unfolding n_def by blast
  define st1 where "st1 = st\<lparr>bfpOut := Some s'\<rparr>"
  define st3 where "st3 = (case refill 0 n st1 of (i, st') \<Rightarrow> drain i n st')"
  have es: "encode_step bo matchData st = Some st3"
    using e by (simp add: encode_step_def st1_def st3_def split: prod.splits)
  have h1: "windowHead st1 < WINDOW_SIZE" "uncodedHead st1 < MAX_CODED"
    using assms(5,6) by (simp_all add: st1_def)
  from replace_heads [OF h1, of n]
  have r: "unat (windowHead st3) = (unat (windowHead st) + unat n) mod 4096"
    "unat (uncodedHead st3) = (unat (uncodedHead st) + unat n) mod 18"
    "bfpOut st3 = Some s'"
    by (simp_all add: st3_def st1_def)
  show ?thesis
  proof (cases "clamped matchData st \<le> MAX_UNCODED")
    case True
    with es r w show ?thesis by (simp add: n_def)
  next
    case False
    with es r w show ?thesis by (simp add: n_def)
  qed
qed

text \<open>A state to try the iteration on: the lookahead holds \<open>A\<close>, nothing is left to read,
  and the match finder has reported no match.\<close>

definition enc_state_A :: enc_state where
  "enc_state_A =
     \<lparr>slidingWindow = replicate 4096 0x20, uncodedLookahead = 0x41 # replicate 17 0,
      fpIn = empty_file,
      bfpOut = MakeBitFile LittleEndian (Some empty_file) BF_WRITE,
      windowHead = 0, uncodedHead = 0, len = 1\<rparr>"

theorem encode_step_emits_record_witness:
  "\<exists>st' s'. encode_step LittleEndian \<lparr>m_offset = 0, m_length = 0\<rparr> enc_state_A = Some st' \<and>
      bfpOut st' = Some s' \<and>
      writes (the (bfpOut enc_state_A))
        [True, False, True, False, False, False, False, False, True] s' \<and>
      unat (windowHead st') = 1 \<and> unat (uncodedHead st') = 1"
proof -
  let ?s = "the (bfpOut enc_state_A)"
  have h: "bfpOut enc_state_A = Some ?s" "bitCount ?s < 8" "wok (fp ?s)"
    "host_funcs LittleEndian ?s" "windowHead enc_state_A < WINDOW_SIZE"
    "uncodedHead enc_state_A < MAX_CODED"
    by (simp_all add: enc_state_A_def MakeBitFile_Some empty_file_def host_funcs_def
          WINDOW_SIZE_def MAX_CODED_def)
  have c: "clamped \<lparr>m_offset = 0, m_length = 0\<rparr> enc_state_A \<le> MAX_UNCODED"
    by (simp add: clamped_def enc_state_A_def MAX_UNCODED_def)
  have b: "byte_bits (uncodedLookahead enc_state_A ! unat (uncodedHead enc_state_A))
             = [False, True, False, False, False, False, False, True]"
    by (simp add: enc_state_A_def byte_bits_def)
  from encode_step_emits_record [OF h, of "\<lparr>m_offset = 0, m_length = 0\<rparr>"] c b
  show ?thesis
    by (simp add: enc_state_A_def)
qed

section \<open>LZSS codec: decoder\<close>

record dec_state = lz_globals +
  bfpIn :: "bit_file_t option"
  fpOut :: FILE
  nextChar :: "32 word"

datatype 'a step = Break 'a | Continue 'a

text \<open>The two copy loops of an encoded record: first out of the window into the output
  file and the lookahead buffer, then from the lookahead buffer into the window.\<close>

function copy_out :: "32 word \<Rightarrow> encoded_string_t \<Rightarrow> dec_state \<Rightarrow> dec_state" where
  "copy_out i code st =
     (if i < m_length code
      then (let c = slidingWindow st ! unat (Wrap (m_offset code + i) WINDOW_SIZE);
                (r, f) = fputc (uint c) (fpOut st)
            in copy_out (i + 1) code
                 (st\<lparr>fpOut := f, uncodedLookahead := (uncodedLookahead st)[unat i := c]\<rparr>))
      else st)"
  by pat_completeness auto
termination
  by (relation "measure (\<lambda>(i, code, st). unat (m_length code) - unat i)")
     (auto simp: unat_succ_below word_less_nat_alt)

declare copy_out.simps [simp del]

function copy_window :: "32 word \<Rightarrow> encoded_string_t \<Rightarrow> dec_state \<Rightarrow> dec_state" where
  "copy_window i code st =
     (if i < m_length code
      then copy_window (i + 1) code
             (st\<lparr>slidingWindow := (slidingWindow st)
                     [unat (Wrap (nextChar st + i) WINDOW_SIZE) := uncodedLookahead st ! unat i]\<rparr>)
      else st)"
  by pat_completeness auto
termination
  by (relation "measure (\<lambda>(i, code, st). unat (m_length code) - unat i)")
     (auto simp: unat_succ_below word_less_nat_alt)

declare copy_window.simps [simp del]

text \<open>One iteration of \<open>while (1)\<close> in \<open>DecodeLZSS\<close>.\<close>

definition decode_step :: "byte_order \<Rightarrow> dec_state \<Rightarrow> dec_state step option" where
  "decode_step bo st =
     (case BitFileGetBit (bfpIn st) of
        (c, bf) \<Rightarrow>
          if c = EOF then Some (Break (st\<lparr>bfpIn := bf\<rparr>))
          else if c = UNCODED
          then (case BitFileGetChar bf of
                  (c2, bf2) \<Rightarrow>
                    if c2 = EOF then Some (Break (st\<lparr>bfpIn := bf2\<rparr>))
                    else (let (r, f) = fputc c2 (fpOut st)
                          in Some (Continue
                               (st\<lparr>bfpIn := bf2, fpOut := f,
                                   slidingWindow :=
                                     (slidingWindow st)[unat (nextChar st) := word_of_int c2],
                                   nextChar := Wrap (nextChar st + 1) WINDOW_SIZE\<rparr>))))
          else do {
            (r1, bf1, b1) \<leftarrow> BitFileGetBitsNum bf (Some (obj_bytes bo 4 0)) OFFSET_BITS 4;
            if r1 = EOF then Some (Break (st\<lparr>bfpIn := bf1\<rparr>))
            else do {
              (r2, bf2, b2) \<leftarrow> BitFileGetBitsNum bf1 (Some (obj_bytes bo 4 0)) LENGTH_BITS 4;
              if r2 = EOF then Some (Break (st\<lparr>bfpIn := bf2\<rparr>))
              else do {
                off \<leftarrow> b1;
                ln \<leftarrow> b2;
                let code = \<lparr>m_offset = word_of_nat (obj_value bo off),
                            m_length = word_of_nat (obj_value bo ln) + (MAX_UNCODED + 1)\<rparr>;
                let st1 = copy_out 0 code (st\<lparr>bfpIn := bf2\<rparr>);
                let st2 = copy_window 0 code st1;
                Some (Continue (st2\<lparr>nextChar := Wrap (nextChar st2 + m_length code) WINDOW_SIZE\<rparr>))
              }
            }
          })"

text \<open>The loop itself: \<open>while (1)\<close> has no bound of its own, so the function is partial;
  \<open>None\<close> also stands for undefined behaviour inside a step.\<close>

partial_function (option) decode_loop :: "byte_order \<Rightarrow> dec_state \<Rightarrow> dec_state option" where
  "decode_loop bo st =
     (case decode_step bo st of
        None \<Rightarrow> None
      | Some (Break st') \<Rightarrow> Some st'
      | Some (Continue st') \<Rightarrow> decode_loop bo st')"

text \<open>The loop together with the code after it: the input handle is turned back into a
  plain file and the function returns 0.\<close>

definition decode_from ::
  "byte_order \<Rightarrow> dec_state \<Rightarrow> (int \<times> FILE option \<times> FILE option \<times> lz_globals) option" where
  "decode_from bo st =
     (case decode_loop bo st of
        None \<Rightarrow> None
      | Some st' \<Rightarrow>
          Some (0, BitFileToFILE (bfpIn st'), Some (fpOut st'), lz_globals.truncate st'))"

definition DecodeLZSS ::
  "byte_order \<Rightarrow> lz_globals \<Rightarrow> FILE option \<Rightarrow> FILE option
     \<Rightarrow> (int \<times> FILE option \<times> FILE option \<times> lz_globals) option" where
  "DecodeLZSS bo g fIn fOut =
     (case (fIn, fOut) of
        (Some fin, Some fout) \<Rightarrow>
          (case MakeBitFile bo fIn BF_READ of
             None \<Rightarrow> Some (- 1, fIn, fOut, g)
           | Some bf \<Rightarrow>
               decode_from bo
                 \<lparr>slidingWindow = replicate (unat WINDOW_SIZE) 0x20,
                  uncodedLookahead = uncodedLookahead g,
                  bfpIn = Some bf, fpOut = fout, nextChar = 0\<rparr>)
      | _ \<Rightarrow> Some (- 1, fIn, fOut, g))"

section \<open>Bit stream layer: reading the bits back\<close>

text \<open>
  What a reader still has before it: the \<open>bitCount\<close> unread bits of the buffer followed
  by the bytes not yet fetched.  \<open>reads s bs s'\<close> says that \<open>s'\<close> is \<open>s\<close> after the bits
  \<open>bs\<close> were taken off the front.
\<close>

definition in_bits :: "bit_file_t \<Rightarrow> bool list" where
  "in_bits s =
     low_bits (unat (bitCount s)) (bitBuffer s) @ concat (map byte_bits (unread (fp s)))"

definition reads :: "bit_file_t \<Rightarrow> bool list \<Rightarrow> bit_file_t \<Rightarrow> bool" where
  "reads s bs s' \<longleftrightarrow>
     in_bits s = bs @ in_bits s' \<and> bitCount s' < 8 \<and>
     written (fp s') = written (fp s) \<and> wok (fp s') = wok (fp s) \<and>
     PutBitsNumFunc s' = PutBitsNumFunc s \<and> GetBitsNumFunc s' = GetBitsNumFunc s \<and>
     mode s' = mode s"

lemma reads_trans: "reads s as s1 \<Longrightarrow> reads s1 bs s2 \<Longrightarrow> reads s (as @ bs) s2"
  by (simp add: reads_def)

lemma length_in_bits:
  "length (in_bits s) = unat (bitCount s) + 8 * length (unread (fp s))"
  by (simp add: in_bits_def length_concat comp_def sum_list_triv)

lemma lsb_of_shifted: "drop_bit k (uint (b :: byte)) AND 1 = (if bit b k then 1 else 0)"
proof -
  have "drop_bit k (uint b) AND 1 = drop_bit k (uint b) mod 2"
    by (simp add: and_one_eq)
  also have "\<dots> = (if odd (drop_bit k (uint b)) then 1 else 0)"
    by (simp add: mod_2_eq_odd)
  also have "odd (drop_bit k (uint b)) \<longleftrightarrow> bit b k"
    by (auto simp: bit_iff_odd_drop_bit [symmetric] bit_uint_iff dest: bit_imp_le_length)
  finally show ?thesis .
qed

lemma GetBit_empty:
  assumes "in_bits s = []"
  shows "BitFileGetBit (Some s) = (EOF, Some s)"
proof -
  from assms have "unat (bitCount s) = 0" "unread (fp s) = []"
    using length_in_bits [of s] by simp_all
  then show ?thesis
    by (simp add: BitFileGetBit_def fgetc_def unat_eq_zero)
qed

lemma GetBit_reads:
  assumes "bitCount s < 8" and "in_bits s = x # xs"
  shows "\<exists>s'. BitFileGetBit (Some s) = (if x then 1 else 0, Some s') \<and> reads s [x] s'"
proof (cases "bitCount s = 0")
  case True
  with assms(2) obtain b bs where u: "unread (fp s) = b # bs"
    by (cases "unread (fp s)") (auto simp: in_bits_def)
  with True assms(2) have x: "x = bit b 7"
    by (simp add: in_bits_def byte_bits_def)
  have "unat (7 :: byte) = 7" by simp
  with True u x show ?thesis
    by (simp add: BitFileGetBit_def fgetc_def get_bit_msb_def Let_def lsb_of_shifted
          reads_def in_bits_def byte_bits_def)
next
  case False
  define k where "k = unat (bitCount s) - 1"
  from False have nz: "unat (bitCount s) \<noteq> 0" by (simp add: unat_eq_zero)
  then have k: "unat (bitCount s) = Suc k" by (simp add: k_def)
  from False have k': "unat (bitCount s - 1) = k" by (simp add: k_def unat_minus_one)
  from assms(1) have lt: "bitCount s - 1 < 8"
    using k k' by (simp add: word_less_nat_alt)
  from assms(2) k have x: "x = bit (bitBuffer s) k"
    by (simp add: in_bits_def)
  from False k k' x lt show ?thesis
    by (simp add: BitFileGetBit_def get_bit_msb_def Let_def lsb_of_shifted reads_def in_bits_def)
qed

lemma GetChar_empty:
  assumes "unread (fp s) = []"
  shows "BitFileGetChar (Some s) = (EOF, Some s)"
  using assms by (simp add: BitFileGetChar_def fgetc_def Let_def)

lemma GetChar_reads:
  assumes "bitCount s < 8" and "unread (fp s) \<noteq> []"
  shows "\<exists>s' b. BitFileGetChar (Some s) = (uint b, Some s') \<and> reads s (byte_bits b) s' \<and>
           bitCount s' = bitCount s"
proof -
  from assms(2) obtain c cs where u: "unread (fp s) = c # cs"
    by (cases "unread (fp s)") auto
  let ?k = "unat (bitCount s)"
  have k: "?k < 8" using assms(1) by (simp add: word_less_nat_alt)
  show ?thesis
  proof (cases "bitCount s = 0")
    case True
    with u show ?thesis
      by (auto simp: BitFileGetChar_def fgetc_def Let_def reads_def in_bits_def)
  next
    case False
    from assemble_bits [OF k, of c "bitBuffer s"] False u assms(1) show ?thesis
      by (auto simp: BitFileGetChar_def fgetc_def Let_def reads_def in_bits_def EOF_def)
  qed
qed


lemma reads_length:
  "reads s bs s' \<Longrightarrow> length (in_bits s') = length (in_bits s) - length bs"
  by (simp add: reads_def)

lemma host_funcs_reads: "reads s bs s' \<Longrightarrow> host_funcs bo s \<Longrightarrow> host_funcs bo s'"
  by (simp add: reads_def host_funcs_def)

lemma byte_at_update:
  "byte_at bytes off = Some b0 \<Longrightarrow> byte_at (bytes[nat off := b]) off = Some b"
  by (auto simp: byte_at_def split: if_splits)

lemma get_tail_EOF:
  assumes "bitCount s < 8" and "length (in_bits s) < n" and "byte_at bytes off = Some b0"
  shows "\<exists>s' bytes'. get_tail (Some s) bytes off (int n) = Some (Some EOF, Some s', bytes')"
  using assms
proof (induction n arbitrary: s bytes b0)
  case 0
  then show ?case by simp
next
  case (Suc n)
  show ?case
  proof (cases "in_bits s")
    case Nil
    from GetBit_empty [OF Nil] show ?thesis
      by (subst get_tail.simps) simp
  next
    case (Cons x xs)
    from GetBit_reads [OF Suc.prems(1) Cons]
    obtain s1 where g: "BitFileGetBit (Some s) = (if x then 1 else 0, Some s1)"
      and r: "reads s [x] s1"
      by blast
    from r have inv: "bitCount s1 < 8" by (simp add: reads_def)
    from reads_length [OF r] Suc.prems(2) Cons have len: "length (in_bits s1) < n" by simp
    let ?bytes = "bytes[nat off := push_bit 1 b0 OR word_of_int ((if x then 1 else 0) AND 1)]"
    have step: "get_tail (Some s) bytes off (int (Suc n)) = get_tail (Some s1) ?bytes off (int n)"
      using g Suc.prems(3) by (subst get_tail.simps) (simp add: EOF_def)
    from Suc.IH [OF inv len byte_at_update [OF Suc.prems(3)]] show ?thesis
      unfolding step by blast
  qed
qed

text \<open>The byte that \<open>n\<close> bits shifted in one after the other make of \<open>b0\<close>.\<close>

definition shift_bits :: "byte \<Rightarrow> bool list \<Rightarrow> byte" where
  "shift_bits b0 bs = foldl (\<lambda>a x. push_bit 1 a OR (if x then 1 else 0)) b0 bs"

lemma get_tail_reads:
  assumes "bitCount s < 8" and "in_bits s = bs @ rest" and "byte_at bytes off = Some b0"
  shows "\<exists>s'. get_tail (Some s) bytes off (int (length bs))
                 = Some (None, Some s', bytes[nat off := shift_bits b0 bs]) \<and> reads s bs s'"
  using assms
proof (induction bs arbitrary: s bytes b0)
  case Nil
  then show ?case
    by (subst get_tail.simps) (auto simp: shift_bits_def reads_def byte_at_def split: if_splits)
next
  case (Cons x xs)
  from Cons.prems(2) have ib: "in_bits s = x # (xs @ rest)" by simp
  from GetBit_reads [OF Cons.prems(1) ib]
  obtain s1 where g: "BitFileGetBit (Some s) = (if x then 1 else 0, Some s1)"
    and r: "reads s [x] s1"
    by blast
  from r have inv: "bitCount s1 < 8" by (simp add: reads_def)
  from r ib have ib1: "in_bits s1 = xs @ rest" by (simp add: reads_def)
  let ?b1 = "push_bit 1 b0 OR (if x then 1 else 0)"
  let ?bytes = "bytes[nat off := ?b1]"
  have e: "word_of_int ((if x then 1 else 0) AND 1) = (if x then 1 else 0 :: byte)" by simp
  have step: "get_tail (Some s) bytes off (int (length (x # xs)))
                = get_tail (Some s1) ?bytes off (int (length xs))"
    using g Cons.prems(3) by (subst get_tail.simps) (simp add: EOF_def e)
  from Cons.IH [OF inv ib1 byte_at_update [OF Cons.prems(3)], of ?b1]
  obtain s' where t: "get_tail (Some s1) ?bytes off (int (length xs))
                 = Some (None, Some s', ?bytes[nat off := shift_bits ?b1 xs])"
    and r2: "reads s1 xs s'"
    by blast
  have "shift_bits b0 (x # xs) = shift_bits ?b1 xs" by (simp add: shift_bits_def)
  with t step reads_trans [OF r r2] show ?case by simp
qed


lemma obj_bytes_4_0:
  "obj_bytes LittleEndian 4 0 = [0, 0, 0, 0]" "obj_bytes BigEndian 4 0 = [0, 0, 0, 0]"
  by (simp_all add: obj_bytes_def le_bytes_4)

lemma get_bits_from_4_EOF:
  assumes "bitCount s < 8" and "length (in_bits s) < 4" and "byte_at bytes off0 = Some b0"
  shows "\<exists>s' bytes'. get_bits_from step (Some s) bytes 4 off0 = Some (EOF, Some s', bytes')"
proof -
  from get_tail_EOF [OF assms(1) _ assms(3), of 4] assms(2)
  obtain s' bytes' where "get_tail (Some s) bytes off0 4 = Some (Some EOF, Some s', bytes')"
    by auto
  then show ?thesis
    by (simp add: get_bits_from_def get_whole.simps)
qed

lemma get_bits_from_12_EOF:
  assumes "bitCount s < 8" and "length (in_bits s) < 12"
    and "byte_at bytes off0 = Some b0" and "byte_at bytes (off0 + step) = Some b1"
  shows "\<exists>s' bytes'. get_bits_from step (Some s) bytes 12 off0 = Some (EOF, Some s', bytes')"
proof (cases "unread (fp s) = []")
  case True
  from GetChar_empty [OF True] show ?thesis
    by (simp add: get_bits_from_def get_whole.simps)
next
  case False
  from GetChar_reads [OF assms(1) False]
  obtain s1 b where g: "BitFileGetChar (Some s) = (uint b, Some s1)"
    and r: "reads s (byte_bits b) s1"
    by blast
  from r have inv: "bitCount s1 < 8" by (simp add: reads_def)
  from reads_length [OF r] assms(2) have len: "length (in_bits s1) < 4" by simp
  let ?bytes = "bytes[nat off0 := b]"
  have bs: "byte_set bytes off0 (word_of_int (uint b)) = Some ?bytes"
    using assms(3) by (auto simp: byte_set_def byte_at_def split: if_splits)
  have b1: "byte_at ?bytes (off0 + step) = Some (?bytes ! nat (off0 + step))"
    using assms(4) by (auto simp: byte_at_def split: if_splits)
  from get_tail_EOF [OF inv _ b1, of 4] len
  obtain s' bytes' where "get_tail (Some s1) ?bytes (off0 + step) 4 = Some (Some EOF, Some s', bytes')"
    by auto
  with g bs show ?thesis
    by (simp add: get_bits_from_def get_whole.simps)
qed


lemma byte_bits_inject: "byte_bits a = byte_bits b \<Longrightarrow> a = b"
proof (rule bit_eqI)
  fix n
  assume e: "byte_bits a = byte_bits b"
  show "bit a n \<longleftrightarrow> bit b n"
  proof (cases "n < 8")
    case True
    from e have "byte_bits a ! (7 - n) = byte_bits b ! (7 - n)" by simp
    with True show ?thesis
      by (simp add: byte_bits_def low_bits_def rev_nth del: low_bits_numeral)
  next
    case False
    then show ?thesis by simp
  qed
qed

lemma get_bits_from_12_reads:
  assumes "bitCount s < 8" and "in_bits s = byte_bits c @ bs @ rest" and "length bs = 4"
    and "byte_at bytes off0 = Some b0" and "byte_at bytes (off0 + step) = Some b1"
    and "step \<noteq> 0"
  shows "\<exists>s'. get_bits_from step (Some s) bytes 12 off0
                 = Some (12, Some s', bytes[nat off0 := c, nat (off0 + step) := shift_bits b1 bs]) \<and>
              reads s (byte_bits c @ bs) s'"
proof -
  have ne: "unread (fp s) \<noteq> []"
  proof
    assume "unread (fp s) = []"
    then have "length (in_bits s) < 8"
      using assms(1) by (simp add: length_in_bits word_less_nat_alt)
    with assms(2) show False by simp
  qed
  from GetChar_reads [OF assms(1) ne]
  obtain s1 b where g: "BitFileGetChar (Some s) = (uint b, Some s1)"
    and r: "reads s (byte_bits b) s1"
    by blast
  from r assms(2) have "byte_bits b @ in_bits s1 = byte_bits c @ bs @ rest"
    by (simp add: reads_def)
  then have bc: "byte_bits b = byte_bits c" and ib1: "in_bits s1 = bs @ rest"
    by simp_all
  from bc have b: "b = c" by (rule byte_bits_inject)
  from r have inv: "bitCount s1 < 8" by (simp add: reads_def)
  let ?bytes = "bytes[nat off0 := c]"
  have bs: "byte_set bytes off0 (word_of_int (uint c)) = Some ?bytes"
    using assms(4) by (auto simp: byte_set_def byte_at_def split: if_splits)
  have neq: "nat (off0 + step) \<noteq> nat off0"
    using assms(4,5,6) by (auto simp: byte_at_def split: if_splits)
  have b1: "byte_at ?bytes (off0 + step) = Some b1"
    using assms(5) neq by (auto simp: byte_at_def split: if_splits)
  from get_tail_reads [OF inv ib1 b1] assms(3)
  obtain s' where t: "get_tail (Some s1) ?bytes (off0 + step) 4
        = Some (None, Some s', ?bytes[nat (off0 + step) := shift_bits b1 bs])"
    and r2: "reads s1 bs s'"
    by auto
  from g bs t b have "get_bits_from step (Some s) bytes 12 off0
      = Some (12, Some s', bytes[nat off0 := c, nat (off0 + step) := shift_bits b1 bs])"
    by (simp add: get_bits_from_def get_whole.simps)
  moreover from reads_trans [OF r r2] b have "reads s (byte_bits c @ bs) s'" by simp
  ultimately show ?thesis by blast
qed


lemma obj_value_4:
  "obj_value LittleEndian [a, b, c, d] = unat a + 256 * (unat b + 256 * (unat c + 256 * unat d))"
  "obj_value BigEndian [d, c, b, a] = unat a + 256 * (unat b + 256 * (unat c + 256 * unat d))"
  by (simp_all add: obj_value_def le_value_def)

lemma GetBitsNum_offset_EOF:
  assumes "bitCount s < 8" and "host_funcs bo s" and "length (in_bits s) < 12"
  shows "\<exists>s' b. BitFileGetBitsNum (Some s) (Some (obj_bytes bo 4 0)) OFFSET_BITS 4
                   = Some (EOF, Some s', b)"
proof -
  from assms(2) consider
      (le) "bo = LittleEndian" "GetBitsNumFunc s = Some GetBitsLE"
    | (be) "bo = BigEndian" "GetBitsNumFunc s = Some GetBitsBE"
    by (auto simp: host_funcs_def)
  then show ?thesis
  proof cases
    case le
    from get_bits_from_12_EOF [OF assms(1,3), of "[0, 0, 0, 0]" 0 0 1 0]
    obtain s' bytes' where "get_bits_from 1 (Some s) [0, 0, 0, 0] 12 0 = Some (EOF, Some s', bytes')"
      by (auto simp: byte_at_def)
    with le show ?thesis
      by (simp add: BitFileGetBitsNum_def call_num_func_def BitFileGetBitsLE_def obj_bytes_4_0
            OFFSET_BITS_def)
  next
    case be
    from get_bits_from_12_EOF [OF assms(1,3), of "[0, 0, 0, 0]" 3 0 "- 1" 0]
    obtain s' bytes' where "get_bits_from (- 1) (Some s) [0, 0, 0, 0] 12 3 = Some (EOF, Some s', bytes')"
      by (auto simp: byte_at_def)
    with be show ?thesis
      by (simp add: BitFileGetBitsNum_def call_num_func_def BitFileGetBitsBE_def obj_bytes_4_0
            OFFSET_BITS_def)
  qed
qed

lemma GetBitsNum_length_EOF:
  assumes "bitCount s < 8" and "host_funcs bo s" and "length (in_bits s) < 4"
  shows "\<exists>s' b. BitFileGetBitsNum (Some s) (Some (obj_bytes bo 4 0)) LENGTH_BITS 4
                   = Some (EOF, Some s', b)"
proof -
  from assms(2) consider
      (le) "bo = LittleEndian" "GetBitsNumFunc s = Some GetBitsLE"
    | (be) "bo = BigEndian" "GetBitsNumFunc s = Some GetBitsBE"
    by (auto simp: host_funcs_def)
  then show ?thesis
  proof cases
    case le
    from get_bits_from_4_EOF [OF assms(1,3), of "[0, 0, 0, 0]" 0 0 1]
    obtain s' bytes' where "get_bits_from 1 (Some s) [0, 0, 0, 0] 4 0 = Some (EOF, Some s', bytes')"
      by (auto simp: byte_at_def)
    with le show ?thesis
      by (simp add: BitFileGetBitsNum_def call_num_func_def BitFileGetBitsLE_def obj_bytes_4_0
            LENGTH_BITS_def)
  next
    case be
    from get_bits_from_4_EOF [OF assms(1,3), of "[0, 0, 0, 0]" 3 0 "- 1"]
    obtain s' bytes' where "get_bits_from (- 1) (Some s) [0, 0, 0, 0] 4 3 = Some (EOF, Some s', bytes')"
      by (auto simp: byte_at_def)
    with be show ?thesis
      by (simp add: BitFileGetBitsNum_def call_num_func_def BitFileGetBitsBE_def obj_bytes_4_0
            LENGTH_BITS_def)
  qed
qed

lemma GetBitsNum_offset_reads:
  assumes "bitCount s < 8" and "host_funcs bo s"
    and "in_bits s = byte_bits c @ bs @ rest" and "length bs = 4"
  shows "\<exists>s' b. BitFileGetBitsNum (Some s) (Some (obj_bytes bo 4 0)) OFFSET_BITS 4
                   = Some (12, Some s', Some b) \<and>
                obj_value bo b = unat c + 256 * unat (shift_bits 0 bs) \<and>
                reads s (byte_bits c @ bs) s'"
proof -
  from assms(2) consider
      (le) "bo = LittleEndian" "GetBitsNumFunc s = Some GetBitsLE"
    | (be) "bo = BigEndian" "GetBitsNumFunc s = Some GetBitsBE"
    by (auto simp: host_funcs_def)
  then show ?thesis
  proof cases
    case le
    from get_bits_from_12_reads [OF assms(1,3,4), of "[0, 0, 0, 0]" 0 0 1 0]
    obtain s' where "get_bits_from 1 (Some s) [0, 0, 0, 0] 12 0
        = Some (12, Some s', [c, shift_bits 0 bs, 0, 0])" "reads s (byte_bits c @ bs) s'"
      by (auto simp: byte_at_def)
    with le show ?thesis
      by (simp add: BitFileGetBitsNum_def call_num_func_def BitFileGetBitsLE_def obj_bytes_4_0
            OFFSET_BITS_def obj_value_4)
  next
    case be
    from get_bits_from_12_reads [OF assms(1,3,4), of "[0, 0, 0, 0]" 3 0 "- 1" 0]
    obtain s' where "get_bits_from (- 1) (Some s) [0, 0, 0, 0] 12 3
        = Some (12, Some s', [0, 0, shift_bits 0 bs, c])" "reads s (byte_bits c @ bs) s'"
      by (auto simp: byte_at_def eval_nat_numeral)
    with be show ?thesis
      by (simp add: BitFileGetBitsNum_def call_num_func_def BitFileGetBitsBE_def obj_bytes_4_0
            OFFSET_BITS_def obj_value_4)
  qed
qed


section \<open>LZSS codec: the decoder at the end of the stream\<close>

lemma get_bits_12_available:
  assumes "bitCount s < 8" and "12 \<le> length (in_bits s)"
  obtains c bs rest where "in_bits s = byte_bits c @ bs @ rest" and "length bs = 4"
proof -
  have ne: "unread (fp s) \<noteq> []"
  proof
    assume "unread (fp s) = []"
    then have "length (in_bits s) < 8"
      using assms(1) by (simp add: length_in_bits word_less_nat_alt)
    with assms(2) show False by simp
  qed
  from GetChar_reads [OF assms(1) ne]
  obtain s1 b where r: "reads s (byte_bits b) s1" by blast
  then have ib: "in_bits s = byte_bits b @ in_bits s1" by (simp add: reads_def)
  with assms(2) have "4 \<le> length (in_bits s1)" by simp
  then have "in_bits s1 = take 4 (in_bits s1) @ drop 4 (in_bits s1)" "length (take 4 (in_bits s1)) = 4"
    by simp_all
  with ib show thesis
    using that [of b "take 4 (in_bits s1)" "drop 4 (in_bits s1)"] by simp
qed

lemma decode_loop_Break:
  "decode_step bo st = Some (Break st') \<Longrightarrow> decode_loop bo st = Some st'"
  by (subst decode_loop.simps) simp


text \<open>A record that the remaining bits cannot complete ends the loop in the iteration that
  meets it; only the input handle has moved.\<close>

lemma truncated_record_breaks:
  assumes "bfpIn st = Some s" and "bitCount s < 8" and "host_funcs bo s"
    and "in_bits s = flag # rest" and "length rest < (if flag then 8 else 16)"
  shows "\<exists>s'. decode_step bo st = Some (Break (st\<lparr>bfpIn := Some s'\<rparr>))"
proof -
  from GetBit_reads [OF assms(2,4)]
  obtain s1 where g: "BitFileGetBit (Some s) = (if flag then 1 else 0, Some s1)"
    and r: "reads s [flag] s1"
    by blast
  from r assms(4) have ib1: "in_bits s1 = rest" by (simp add: reads_def)
  from r have inv1: "bitCount s1 < 8" by (simp add: reads_def)
  note hf1 = host_funcs_reads [OF r assms(3)]
  show ?thesis
  proof (cases flag)
    case True
    with assms(5) ib1 have "length (in_bits s1) < 8" by simp
    then have "unread (fp s1) = []" by (cases "unread (fp s1)") (simp_all add: length_in_bits)
    from GetChar_empty [OF this] g True assms(1) show ?thesis
      by (auto simp: decode_step_def EOF_def UNCODED_def)
  next
    case False
    with assms(5) ib1 have short: "length (in_bits s1) < 16" by simp
    show ?thesis
    proof (cases "length (in_bits s1) < 12")
      case True
      from GetBitsNum_offset_EOF [OF inv1 hf1 True]
      obtain s' b where "BitFileGetBitsNum (Some s1) (Some (obj_bytes bo 4 0)) OFFSET_BITS 4
                   = Some (EOF, Some s', b)"
        by blast
      with g False assms(1) show ?thesis
        by (auto simp: decode_step_def EOF_def UNCODED_def)
    next
      case ge: False
      then have "12 \<le> length (in_bits s1)" by simp
      from get_bits_12_available [OF inv1 this]
      obtain c bs rest' where ib: "in_bits s1 = byte_bits c @ bs @ rest'" and lb: "length bs = 4"
        by blast
      from GetBitsNum_offset_reads [OF inv1 hf1 ib lb]
      obtain s2 b where o: "BitFileGetBitsNum (Some s1) (Some (obj_bytes bo 4 0)) OFFSET_BITS 4
                   = Some (12, Some s2, Some b)"
        and r2: "reads s1 (byte_bits c @ bs) s2"
        by blast
      from r2 have inv2: "bitCount s2 < 8" by (simp add: reads_def)
      note hf2 = host_funcs_reads [OF r2 hf1]
      from reads_length [OF r2] short lb have "length (in_bits s2) < 4" by simp
      from GetBitsNum_length_EOF [OF inv2 hf2 this]
      obtain s' b' where "BitFileGetBitsNum (Some s2) (Some (obj_bytes bo 4 0)) LENGTH_BITS 4
                   = Some (EOF, Some s', b')"
        by blast
      with g o False assms(1) show ?thesis
        by (auto simp: decode_step_def EOF_def UNCODED_def)
    qed
  qed
qed

text \<open>
  Claim C9.  Let the decoder loop stand before a record that the input cannot complete: the
  remaining bits are a flag bit followed by fewer than 16 bits of an encoded record (the
  stream ends right after the flag, inside the offset or inside the length), or by fewer
  than 8 bits of a literal.  On a little- or big-endian host the loop then ends in this
  iteration; the output file, the window and \<open>nextChar\<close> are what they were before the
  record, and the function returns 0.
\<close>

theorem truncated_record_stops_decoder:
  assumes "bfpIn st = Some s" and "bitCount s < 8" and "host_funcs bo s"
    and "in_bits s = flag # rest" and "length rest < (if flag then 8 else 16)"
  shows "\<exists>st' fi. decode_loop bo st = Some st' \<and> fpOut st' = fpOut st \<and>
           slidingWindow st' = slidingWindow st \<and> nextChar st' = nextChar st \<and>
           decode_from bo st =
             Some (0, fi, Some (fpOut st),
                   \<lparr>slidingWindow = slidingWindow st, uncodedLookahead = uncodedLookahead st\<rparr>)"
proof -
  from truncated_record_breaks [OF assms]
  obtain s' where "decode_step bo st = Some (Break (st\<lparr>bfpIn := Some s'\<rparr>))" by blast
  from decode_loop_Break [OF this] show ?thesis
    by (simp add: decode_from_def lz_globals.truncate_def)
qed

text \<open>A decoder that has one byte \<open>0x40\<close> left: the flag of an encoded record and seven
  bits of its offset.\<close>

definition dec_state_T :: dec_state where
  "dec_state_T =
     \<lparr>slidingWindow = replicate 4096 0x20, uncodedLookahead = replicate 18 0,
      bfpIn = MakeBitFile LittleEndian (Some (empty_file\<lparr>unread := [0x40]\<rparr>)) BF_READ,
      fpOut = empty_file, nextChar = 0\<rparr>"

theorem truncated_record_stops_decoder_witness:
  "\<exists>st' fi. decode_loop LittleEndian dec_state_T = Some st' \<and> fpOut st' = empty_file \<and>
      slidingWindow st' = replicate 4096 0x20 \<and> nextChar st' = 0 \<and>
      decode_from LittleEndian dec_state_T =
        Some (0, fi, Some empty_file,
              \<lparr>slidingWindow = replicate 4096 0x20, uncodedLookahead = replicate 18 0\<rparr>)"
proof -
  let ?s = "the (bfpIn dec_state_T)"
  have h: "bfpIn dec_state_T = Some ?s" "bitCount ?s < 8" "host_funcs LittleEndian ?s"
    "in_bits ?s = False # [True, False, False, False, False, False, False]"
    "length [True, False, False, False, False, False, False] < (if False then 8 else 16)"
    by (simp_all add: dec_state_T_def MakeBitFile_Some empty_file_def host_funcs_def
          in_bits_def byte_bits_def)
  from truncated_record_stops_decoder [OF h] show ?thesis
    by (simp add: dec_state_T_def)
qed

section \<open>LZSS codec: the match finder\<close>

text \<open>The global buffers of a freshly started process (zero-initialised arrays).\<close>

definition init_globals :: lz_globals where
  "init_globals = \<lparr>slidingWindow = replicate 4096 0, uncodedLookahead = replicate 18 0\<rparr>"

text \<open>How far the window, read cyclically from index \<open>i\<close>, agrees with the lookahead,
  read cyclically from index \<open>j\<close>: the length of the common run, at most \<open>k\<close>.\<close>

fun match_run :: "nat \<Rightarrow> byte list \<Rightarrow> byte list \<Rightarrow> nat \<Rightarrow> nat \<Rightarrow> nat" where
  "match_run 0 w l i j = 0"
| "match_run (Suc k) w l i j =
     (if w ! (i mod 4096) = l ! (j mod 18) then Suc (match_run k w l (i + 1) (j + 1)) else 0)"

lemma match_run_spaces:
  "match_run k (replicate 4096 c) (replicate 18 c) i j = k"
  by (induction k arbitrary: i j) simp_all

text \<open>Whatever the library reports, a match that \<open>FindMatch\<close> returns has the offset
  \<open>windowHead - length\<close>: the position of the entry in the result array is not used.\<close>

lemma match_scan_shape:
  assumes "m_length m0 = 0 \<or> m_offset m0 = wh - m_length m0"
  shows "m_length (match_scan wh rs m0) = 0 \<or>
         m_offset (match_scan wh rs m0) = wh - m_length (match_scan wh rs m0)"
  using assms by (induction rs arbitrary: m0) auto

lemma FindMatch_shape:
  "m_length (FindMatch rs wh uh) = 0 \<or>
   m_offset (FindMatch rs wh uh) = wh - m_length (FindMatch rs wh uh)"
  unfolding FindMatch_def by (rule match_scan_shape) simp

lemma match_scan_zeros:
  "match_scan wh (replicate n 0) m = m"
  by (induction n) simp_all

lemma unat_neg_32:
  fixes x :: "32 word"
  assumes "unat x \<noteq> 0"
  shows "unat (- x) = 2 ^ 32 - unat x"
  using unat_sub_if_size [of 0 x] assms by (simp add: word_size)

text \<open>
  Claim C2.  At the start of a run (\<open>windowHead = 0\<close>, \<open>uncodedHead = 0\<close>) with a window
  of 4096 spaces and a lookahead of 18 spaces the window holds a match of the full length
  18 at every index.  Whatever the library has written into \<open>h_matched_result\<close>,
  \<open>FindMatch\<close> returns length 0, or an offset outside \<open>[0, WINDOW_SIZE)\<close>, or a length
  above \<open>MAX_CODED\<close>: never the descriptor of the longest match.
\<close>

theorem FindMatch_at_window_start:
  "match_run 18 (replicate 4096 0x20) (replicate 18 0x20) 0 0 = 18 \<and>
   (m_length (FindMatch h_matched_result 0 0) = 0 \<or>
    WINDOW_SIZE \<le> m_offset (FindMatch h_matched_result 0 0) \<or>
    MAX_CODED < m_length (FindMatch h_matched_result 0 0))"
proof -
  let ?m = "FindMatch h_matched_result 0 0"
  have "m_length ?m = 0 \<or> WINDOW_SIZE \<le> m_offset ?m \<or> MAX_CODED < m_length ?m"
  proof (cases "m_length ?m = 0 \<or> MAX_CODED < m_length ?m")
    case True
    then show ?thesis by auto
  next
    case False
    then have nz: "unat (m_length ?m) \<noteq> 0" and le: "unat (m_length ?m) \<le> 18"
      by (simp_all add: unat_eq_zero MAX_CODED_def word_less_nat_alt not_less)
    from FindMatch_shape [of h_matched_result 0 0] False
    have "m_offset ?m = 0 - m_length ?m" by simp
    then have "unat (m_offset ?m) = 2 ^ 32 - unat (m_length ?m)"
      using unat_neg_32 [OF nz] by simp
    with le have "4096 \<le> unat (m_offset ?m)" by simp
    then show ?thesis by (simp add: WINDOW_SIZE_def word_le_nat_alt)
  qed
  then show ?thesis by (simp add: match_run_spaces)
qed

lemma FindMatch_three_at_zero:
  "FindMatch (3 # replicate n 0) wh uh = \<lparr>m_offset = wh - 3, m_length = 3\<rparr>"
  by (simp add: FindMatch_def match_scan_zeros)

section \<open>LZSS codec: decoding one record\<close>

text \<open>
  The decoder side of one record.  \<open>put_window\<close> writes bytes into the window from a
  position on, cyclically; it describes what both the encoder and the decoder do to the
  window while they advance.
\<close>

fun put_window :: "byte list \<Rightarrow> nat \<Rightarrow> byte list \<Rightarrow> byte list" where
  "put_window W p [] = W"
| "put_window W p (x # xs) = put_window (W[p mod 4096 := x]) (p + 1) xs"

lemma length_put_window [simp]: "length (put_window W p xs) = length W"
  by (induction xs arbitrary: W p) simp_all



lemma shift_bits_4:
  "shift_bits 0 [x3, x2, x1, x0] =
     (if x3 then 8 else 0) OR (if x2 then 4 else 0) OR (if x1 then 2 else 0) OR (if x0 then 1 else 0)"
  by (simp add: shift_bits_def)









text \<open>The bytes of the window from index \<open>p\<close> on, read cyclically.\<close>

definition window_from :: "byte list \<Rightarrow> nat \<Rightarrow> nat \<Rightarrow> nat \<Rightarrow> byte list" where
  "window_from W p i n = map (\<lambda>j. W ! ((p + j) mod 4096)) [i..<n]"


lemma window_from_empty [simp]: "n \<le> i \<Longrightarrow> window_from W p i n = []"
  by (simp add: window_from_def)

lemma length_window_from [simp]: "length (window_from W p i n) = n - i"
  by (simp add: window_from_def)









section \<open>LZSS codec: what an encoder iteration consumes\<close>

text \<open>The bytes waiting in the lookahead buffer, read cyclically from the head.\<close>

definition pending :: "byte list \<Rightarrow> nat \<Rightarrow> nat \<Rightarrow> byte list" where
  "pending l uh n = map (\<lambda>i. l ! ((uh + i) mod 18)) [0..<n]"

lemma length_pending [simp]: "length (pending l uh n) = n"
  by (simp add: pending_def)


lemma pending_0 [simp]: "pending l uh 0 = []"
  by (simp add: pending_def)






































section \<open>LZSS codec: the round trip\<close>























text \<open>The round trip: a file with the bytes \<open>s\<close> is encoded into an empty file, the
  bytes written are decoded into another empty file; the result is what the decoder wrote,
  provided both functions returned 0.\<close>

definition LZSS_round_trip :: "match_finder \<Rightarrow> byte_order \<Rightarrow> byte list \<Rightarrow> byte list option" where
  "LZSS_round_trip fm bo s = do {
     (r, fi, fo, g) \<leftarrow> EncodeLZSS_with fm bo init_globals
                        (Some (empty_file\<lparr>unread := s\<rparr>)) (Some empty_file);
     f \<leftarrow> fo;
     (r', fi', fo', g') \<leftarrow> DecodeLZSS bo g
                        (Some (empty_file\<lparr>unread := written f\<rparr>)) (Some empty_file);
     f' \<leftarrow> fo';
     if r = 0 \<and> r' = 0 then Some (written f') else None
   }"




text \<open>
  The condition on the finder is needed.  If the library reports the value 3 at window
  index 0 while the window holds spaces and the lookahead holds \<open>abc\<close>, a match that does
  not exist, \<open>FindMatch\<close> returns \<open>(offset = 0 - 3, length = 3)\<close>, the encoder writes the
  bytes \<open>7E F8 00\<close> and the decoder turns them into \<open>20 20 20\<close>.
\<close>

lemmas lzss_eval = EncodeLZSS_def EncodeLZSS_with_def DecodeLZSS_def decode_from_def
  MakeBitFile_Some init_globals_def empty_file_def FindMatch_three_at_zero
  InitializeSearchStructures_def
  fill_lookahead.simps encode_loop.simps encode_step_def emit_record_def refill.simps
  drain.simps shift_in_def shift_out_def advance_heads_def ReplaceChar_def Wrap_def
  decode_loop.simps decode_step_def copy_out.simps copy_window.simps BitFileToFILE_def
  flush_residual_def
  WINDOW_SIZE_def MAX_CODED_def MAX_UNCODED_def OFFSET_BITS_def LENGTH_BITS_def
  ENCODED_def UNCODED_def obj_bytes_def obj_value_def le_bytes_4 le_value_def
  put_whole.simps put_tail.simps get_whole.simps get_tail.simps
  lz_globals.truncate_def

lemma unfounded_match_breaks_round_trip:
  "map_option (\<lambda>(r, fi, fo, g). (r, map_option written fo))
     (EncodeLZSS (\<lambda>w l. 3 # replicate 4095 0) LittleEndian init_globals
        (Some (empty_file\<lparr>unread := [0x61, 0x62, 0x63]\<rparr>)) (Some empty_file))
     = Some (0, Some [0x7E, 0xF8, 0x00]) \<and>
   map_option (\<lambda>(r, fi, fo, g). (r, map_option written fo))
     (DecodeLZSS LittleEndian init_globals
        (Some (empty_file\<lparr>unread := [0x7E, 0xF8, 0x00]\<rparr>)) (Some empty_file))
     = Some (0, Some [0x20, 0x20, 0x20]) \<and>
   LZSS_round_trip (\<lambda>w l wh uh. FindMatch (3 # replicate 4095 0) wh uh) LittleEndian
     [0x61, 0x62, 0x63] = Some [0x20, 0x20, 0x20]"
  by (simp add: LZSS_round_trip_def lzss_eval bitfile_eval)

end
